theory Spec2Isabelle
  imports Main
begin

section \<open>The ceph-nfs relation handler of charm-microceph\<close>

text \<open>
  A shallow embedding of \<^verbatim>\<open>src/ceph_nfs.py\<close> (class \<^verbatim>\<open>CephNfsProviderHandler\<close>).
  Methods of the class become functions that take the state and return the outcome
  together with the new state. An outcome \<open>Inl ex\<close> is a Python exception that left the
  method; \<open>Inr v\<close> is a normal return of \<open>v\<close>. The leading underscore of the Python
  method names is dropped, since an Isabelle name cannot start with one.
\<close>

subsection \<open>Data\<close>

text \<open>
  The exceptions the handler can see: the \<^verbatim>\<open>AttributeError\<close> of \<^verbatim>\<open>rel.units\<close> when
  \<^verbatim>\<open>get_relation("peers")\<close> gave \<^verbatim>\<open>None\<close>, and whatever a collaborator raises.
\<close>

datatype exn = AttributeError | Failure string

text \<open>
  One entry of \<^verbatim>\<open>client.cluster.list_services()\<close>: a dict read with
  \<^verbatim>\<open>s["service"]\<close>, \<^verbatim>\<open>s.get("group_id")\<close> and \<^verbatim>\<open>s["location"]\<close>. The keys
  \<^verbatim>\<open>service\<close> and \<^verbatim>\<open>location\<close> are always there in what microceph returns;
  \<^verbatim>\<open>group_id\<close> may be missing, and \<^verbatim>\<open>.get\<close> then gives \<^verbatim>\<open>None\<close>.
\<close>

record svc =
  service :: string
  group_id :: "string option"
  location :: string

text \<open>
  A relation of the endpoint: \<^verbatim>\<open>relation.app.name\<close>, and an identity for
  \<^verbatim>\<open>r != event.relation\<close>.
\<close>

record relation =
  rel_id :: nat
  app_name :: string

text \<open>A unit of the peer relation: \<^verbatim>\<open>unit.name\<close> and its databag \<^verbatim>\<open>rel.data[unit]\<close>.\<close>

type_synonym peer = "string \<times> (string \<rightharpoonup> string)"

text \<open>
  Every call to a collaborator outside the class is written to a trace, in the
  order it is made. The two actuator calls carry their outcome: \<open>None\<close> when the call
  returned, \<open>Some ex\<close> when it raised \<open>ex\<close>.
\<close>

datatype call =
    GetOsdCount
  | ListServices
  | EnableNfs string string string "exn option"
  | DisableNfs string string "exn option"
  | ListFsVolumes
  | CreateFsVolume string
  | GetNamedKey string "(string \<times> string list) list"
  | GetMonAddresses
  | GetFsid
  | RemoveNamedKey string

text \<open>A log record: the level, the message template and its arguments.\<close>

datatype level = INFO | WARNING | ERROR

datatype logarg = Str string | Num nat | Exc exn

type_synonym logrec = "level \<times> string \<times> logarg list"

text \<open>
  The modules \<^verbatim>\<open>ceph\<close>, \<^verbatim>\<open>microceph\<close>, \<^verbatim>\<open>utils\<close> and \<^verbatim>\<open>microceph_client\<close> are
  not part of the file; they are parameters, acting on a state \<open>'w\<close> of the Ceph
  cluster that the handler never looks into. The inventory query, the two actuator
  calls and every call that \<^verbatim>\<open>_service_relation\<close> makes after reconciliation (the
  volume list, the volume creation, the named key, the monitor addresses, the fsid) may
  raise. A call that changes the cluster may change it even when it raises. The
  order in which Python iterates over \<^verbatim>\<open>set([...])\<close> is a parameter too
  (\<open>set_iter\<close>, given the list the set is built from), and so is \<^verbatim>\<open>json.dumps\<close>.
\<close>

record 'w env =
  get_osd_count :: "'w \<Rightarrow> int"
  list_services :: "'w \<Rightarrow> exn + svc list"
  enable_nfs :: "string \<Rightarrow> string \<Rightarrow> string \<Rightarrow> 'w \<Rightarrow> (exn + unit) \<times> 'w"
  disable_nfs :: "string \<Rightarrow> string \<Rightarrow> 'w \<Rightarrow> (exn + unit) \<times> 'w"
  list_fs_volumes :: "'w \<Rightarrow> exn + string list"
  create_fs_volume :: "string \<Rightarrow> 'w \<Rightarrow> (exn + unit) \<times> 'w"
  get_named_key ::
    "string \<Rightarrow> (string \<times> string list) list \<Rightarrow> 'w \<Rightarrow> (exn + string) \<times> 'w"
  remove_named_key :: "string \<Rightarrow> 'w \<Rightarrow> 'w"
  get_mon_addresses :: "'w \<Rightarrow> exn + string list"
  get_fsid :: "'w \<Rightarrow> exn + string"
  json_dumps :: "string list \<Rightarrow> string"
  set_iter :: "string list \<Rightarrow> string list"

text \<open>
  The state a hook runs in: the Ceph cluster, what the Juju model says
  (\<^verbatim>\<open>unit.is_leader()\<close>, the units of the \<^verbatim>\<open>peers\<close> relation or \<open>None\<close> when there is
  no such relation, \<^verbatim>\<open>model.relations[relation_name]\<close>, the application databag
  \<^verbatim>\<open>relation.data[model.app]\<close> of each relation), whether \<^verbatim>\<open>event.defer()\<close> was
  called, the trace of collaborator calls and the log.
\<close>

record 'w state =
  world :: 'w
  leader :: bool
  peers :: "peer list option"
  relations :: "relation list"
  rel_data :: "nat \<Rightarrow> (string \<rightharpoonup> string)"
  deferred :: bool
  calls :: "call list"
  logs :: "logrec list"

definition add_call :: "call \<Rightarrow> 'w state \<Rightarrow> 'w state" where
  "add_call c s = s\<lparr>calls := calls s @ [c]\<rparr>"

definition add_log :: "level \<Rightarrow> string \<Rightarrow> logarg list \<Rightarrow> 'w state \<Rightarrow> 'w state" where
  "add_log l msg args s = s\<lparr>logs := logs s @ [(l, msg, args)]\<rparr>"

subsection \<open>The public address of a host\<close>

text \<open>
  \<^verbatim>\<open>_get_public_address\<close>: the first unit whose databag maps the unit's own name to
  the host name decides, with \<^verbatim>\<open>rel_data.get("public-address")\<close> (which may be
  \<^verbatim>\<open>None\<close>); with no such unit the result is the empty string.
\<close>

fun find_unit :: "peer list \<Rightarrow> string \<Rightarrow> string option" where
  "find_unit [] hostname = Some []"
| "find_unit ((unit_name, unit_data) # units) hostname =
     (if unit_data unit_name = Some hostname then unit_data ''public-address''
      else find_unit units hostname)"

definition get_public_address :: "'w state \<Rightarrow> string \<Rightarrow> exn + string option" where
  "get_public_address s hostname =
     (case peers s of
        None \<Rightarrow> Inl AttributeError
      | Some units \<Rightarrow> Inr (find_unit units hostname))"

subsection \<open>Reconciliation: \<^verbatim>\<open>_ensure_nfs_cluster\<close>\<close>

definition log_no_address :: "string \<Rightarrow> 'w state \<Rightarrow> 'w state" where
  "log_no_address candidate =
     add_log WARNING ''Could not find the public address of '%s' in the peer relation data.''
       [Str candidate]"

definition log_enable_error :: "string \<Rightarrow> string \<Rightarrow> exn \<Rightarrow> 'w state \<Rightarrow> 'w state" where
  "log_enable_error cluster_id candidate ex =
     add_log ERROR ''Could not enable nfs (cluster_id '%s') on host '%s': %s''
       [Str cluster_id, Str candidate, Exc ex]"

text \<open>
  The loop over the candidates (lines 140 to 161), with the running value of
  \<^verbatim>\<open>nodes_in_cluster\<close>. The \<^verbatim>\<open>try\<close> covers the address lookup and the enable call:
  an exception of either is logged and the loop goes on with the next candidate. A
  missing or empty address is a warning and a \<^verbatim>\<open>continue\<close>. After a successful
  enable the count goes up by one and the loop breaks when it is exactly 3.
\<close>

fun enroll :: "'w env \<Rightarrow> string \<Rightarrow> string list \<Rightarrow> nat \<Rightarrow> 'w state \<Rightarrow> nat \<times> 'w state" where
  "enroll env cluster_id [] nodes_in_cluster s = (nodes_in_cluster, s)"
| "enroll env cluster_id (candidate # candidates) nodes_in_cluster s =
     (case get_public_address s candidate of
        Inl ex \<Rightarrow>
          enroll env cluster_id candidates nodes_in_cluster
            (log_enable_error cluster_id candidate ex s)
      | Inr None \<Rightarrow>
          enroll env cluster_id candidates nodes_in_cluster (log_no_address candidate s)
      | Inr (Some public_addr) \<Rightarrow>
          if public_addr = [] then
            enroll env cluster_id candidates nodes_in_cluster (log_no_address candidate s)
          else
            (case enable_nfs env candidate cluster_id public_addr (world s) of
               (Inl ex, w) \<Rightarrow>
                 enroll env cluster_id candidates nodes_in_cluster
                   (log_enable_error cluster_id candidate ex
                     (add_call (EnableNfs candidate cluster_id public_addr (Some ex))
                       (s\<lparr>world := w\<rparr>)))
             | (Inr u, w) \<Rightarrow>
                 (let s' = add_call (EnableNfs candidate cluster_id public_addr None)
                             (s\<lparr>world := w\<rparr>)
                  in if nodes_in_cluster + 1 = 3 then (nodes_in_cluster + 1, s')
                     else enroll env cluster_id candidates (nodes_in_cluster + 1) s')))"

text \<open>
  The candidates (lines 135 to 138): the distinct locations of all services of the
  inventory, of any kind, in the iteration order of the Python set, without the
  locations of the nfs services of any group.
\<close>

definition candidates_of :: "'w env \<Rightarrow> svc list \<Rightarrow> string list" where
  "candidates_of env services =
     (let all_nfs_services = filter (\<lambda>s. service s = ''nfs'') services;
          exclude_hosts = map location all_nfs_services;
          all_hosts = set_iter env (map location services)
      in filter (\<lambda>h. h \<notin> set exclude_hosts) all_hosts)"

text \<open>
  \<^verbatim>\<open>_ensure_nfs_cluster\<close>. The Python returns a bool; the model returns beside it the
  last value of the local variable \<^verbatim>\<open>nodes_in_cluster\<close>, which the properties below
  speak about. \<open>ensure_nfs_cluster\<close> is the method as the callers see it.
\<close>

definition ensure_nfs_cluster_counted ::
  "'w env \<Rightarrow> string \<Rightarrow> 'w state \<Rightarrow> (exn + bool \<times> nat) \<times> 'w state" where
  "ensure_nfs_cluster_counted env cluster_id s =
     (let s0 = add_call ListServices s in
      case list_services env (world s) of
        Inl ex \<Rightarrow> (Inl ex, s0)
      | Inr services \<Rightarrow>
          (let all_nfs_services = filter (\<lambda>s. service s = ''nfs'') services;
               nfs_services = filter (\<lambda>s. group_id s = Some cluster_id) all_nfs_services;
               nodes_in_cluster = length nfs_services
           in if nodes_in_cluster \<ge> 3 then
                (Inr (True, nodes_in_cluster),
                 add_log INFO ''NFS Cluster '%s' already exists, and there are >= 3 nodes in it.''
                   [Str cluster_id] s0)
              else
                (case enroll env cluster_id (candidates_of env services) nodes_in_cluster s0 of
                   (n, s1) \<Rightarrow>
                     if n = 0 then
                       (Inr (False, n),
                        add_log ERROR ''Could not create NFS Cluster '%s' on any host''
                          [Str cluster_id] s1)
                     else if n < 3 then
                       (Inr (True, n),
                        add_log WARNING ''NFS cluster '%s' is enabled only on %d / 3 nodes.''
                          [Str cluster_id, Num n] s1)
                     else
                       (Inr (True, n),
                        add_log INFO ''NFS cluster '%s' is enabled on 3 / 3 nodes.''
                          [Str cluster_id] s1))))"

definition ensure_nfs_cluster :: "'w env \<Rightarrow> string \<Rightarrow> 'w state \<Rightarrow> (exn + bool) \<times> 'w state" where
  "ensure_nfs_cluster env cluster_id s =
     (case ensure_nfs_cluster_counted env cluster_id s of
        (Inl ex, s') \<Rightarrow> (Inl ex, s')
      | (Inr (ok, n), s') \<Rightarrow> (Inr ok, s'))"

subsection \<open>Publishing: \<^verbatim>\<open>_ensure_fs_volume\<close> and \<^verbatim>\<open>_service_relation\<close>\<close>

text \<open>
  \<^verbatim>\<open>_ensure_fs_volume\<close>: the volume is created when no listed volume has its name. An
  exception of the list or of the creation leaves the method.
\<close>

definition ensure_fs_volume ::
  "'w env \<Rightarrow> string \<Rightarrow> 'w state \<Rightarrow> (exn + unit) \<times> 'w state" where
  "ensure_fs_volume env volume_name s =
     (let s0 = add_call ListFsVolumes s in
      case list_fs_volumes env (world s) of
        Inl ex \<Rightarrow> (Inl ex, s0)
      | Inr fs_volumes \<Rightarrow>
          if volume_name \<in> set fs_volumes then (Inr (), s0)
          else
            (case create_fs_volume env volume_name (world s0) of
               (Inl ex, w) \<Rightarrow> (Inl ex, add_call (CreateFsVolume volume_name) (s0\<lparr>world := w\<rparr>))
             | (Inr u, w) \<Rightarrow> (Inr (), add_call (CreateFsVolume volume_name) (s0\<lparr>world := w\<rparr>))))"

definition caps :: "(string \<times> string list) list" where
  "caps = [(''mon'', [''allow r'']), (''mgr'', [''allow rw''])]"

text \<open>
  The databag \<^verbatim>\<open>relation.data[self.model.app]\<close> is a mapping of the ops framework.
  Its \<^verbatim>\<open>update\<close> stores the items one by one, in the order of the dict, and storing
  the empty string removes the key, as Juju does. Its \<^verbatim>\<open>clear\<close> removes every key.
\<close>

definition databag_set :: "(string \<rightharpoonup> string) \<Rightarrow> string \<Rightarrow> string \<Rightarrow> (string \<rightharpoonup> string)" where
  "databag_set bag k v = (if v = [] then bag(k := None) else bag(k \<mapsto> v))"

fun databag_update :: "(string \<rightharpoonup> string) \<Rightarrow> (string \<times> string) list \<Rightarrow> (string \<rightharpoonup> string)" where
  "databag_update bag [] = bag"
| "databag_update bag ((k, v) # items) = databag_update (databag_set bag k v) items"

text \<open>
  \<^verbatim>\<open>_service_relation\<close>. When no node can be ensured the databag of the relation is
  cleared. Otherwise the volume is ensured, the key, the monitor addresses and the fsid
  are fetched, in this order, and six fields are put into the databag with \<^verbatim>\<open>update\<close>,
  which keeps the other keys. Lines 97 to 114 have no \<^verbatim>\<open>try\<close>: an exception of one
  of the calls leaves the method before the databag is touched.
\<close>

definition service_relation ::
  "'w env \<Rightarrow> relation \<Rightarrow> 'w state \<Rightarrow> (exn + bool) \<times> 'w state" where
  "service_relation env rel s =
     (let cluster_id = app_name rel in
      case ensure_nfs_cluster env cluster_id s of
        (Inl ex, s1) \<Rightarrow> (Inl ex, s1)
      | (Inr ok, s1) \<Rightarrow>
          if \<not> ok then
            (Inr False, s1\<lparr>rel_data := (rel_data s1)(rel_id rel := Map.empty)\<rparr>)
          else
            (let volume_name = cluster_id @ ''-vol'' in
             case ensure_fs_volume env volume_name s1 of
               (Inl ex, s2) \<Rightarrow> (Inl ex, s2)
             | (Inr u, s2) \<Rightarrow>
                 (let client_name = ''client.'' @ app_name rel in
                  case get_named_key env client_name caps (world s2) of
                    (Inl ex, w3) \<Rightarrow>
                      (Inl ex, add_call (GetNamedKey client_name caps) (s2\<lparr>world := w3\<rparr>))
                  | (Inr client_key, w3) \<Rightarrow>
                      (let s3 = add_call (GetNamedKey client_name caps) (s2\<lparr>world := w3\<rparr>);
                           s4 = add_call GetMonAddresses s3
                       in case get_mon_addresses env (world s3) of
                            Inl ex \<Rightarrow> (Inl ex, s4)
                          | Inr addrs \<Rightarrow>
                              (let s5 = add_call GetFsid s4 in
                               case get_fsid env (world s4) of
                                 Inl ex \<Rightarrow> (Inl ex, s5)
                               | Inr fsid \<Rightarrow>
                                   (Inr True,
                                    s5\<lparr>rel_data := (rel_data s5)(rel_id rel :=
                                         databag_update (rel_data s5 (rel_id rel))
                                           [(''fsid'', fsid),
                                            (''mon-hosts'', json_dumps env addrs),
                                            (''keyring'', client_key),
                                            (''volume'', volume_name),
                                            (''client'', client_name),
                                            (''cluster-id'', cluster_id)])\<rparr>))))))"

subsection \<open>Teardown: \<^verbatim>\<open>_remove_nfs_cluster\<close>\<close>

text \<open>
  The loop of lines 224 to 235. The \<^verbatim>\<open>except\<close> branch logs the error and ends in
  \<^verbatim>\<open>raise\<close>: the exception leaves the loop and the method.
\<close>

fun disable_each ::
  "'w env \<Rightarrow> string \<Rightarrow> svc list \<Rightarrow> 'w state \<Rightarrow> (exn + unit) \<times> 'w state" where
  "disable_each env cluster_id [] s = (Inr (), s)"
| "disable_each env cluster_id (sv # nfs_services) s =
     (let host = location sv in
      case disable_nfs env host cluster_id (world s) of
        (Inl ex, w) \<Rightarrow>
          (Inl ex,
           add_log ERROR ''Could not disable nfs (cluster_id '%s') on host '%s': %s''
             [Str cluster_id, Str host, Exc ex]
             (add_call (DisableNfs host cluster_id (Some ex)) (s\<lparr>world := w\<rparr>)))
      | (Inr u, w) \<Rightarrow>
          disable_each env cluster_id nfs_services
            (add_call (DisableNfs host cluster_id None) (s\<lparr>world := w\<rparr>)))"

definition members_of :: "string \<Rightarrow> svc list \<Rightarrow> svc list" where
  "members_of cluster_id services =
     filter (\<lambda>s. service s = ''nfs'' \<and> group_id s = Some cluster_id) services"

definition remove_nfs_cluster ::
  "'w env \<Rightarrow> string \<Rightarrow> 'w state \<Rightarrow> (exn + unit) \<times> 'w state" where
  "remove_nfs_cluster env cluster_id s =
     (let s0 = add_call ListServices s in
      case list_services env (world s) of
        Inl ex \<Rightarrow> (Inl ex, s0)
      | Inr services \<Rightarrow> disable_each env cluster_id (members_of cluster_id services) s0)"

subsection \<open>The event handlers\<close>

text \<open>\<^verbatim>\<open>_on_ceph_nfs_connected\<close>, for an event of the relation \<open>rel\<close>.\<close>

definition on_ceph_nfs_connected ::
  "'w env \<Rightarrow> relation \<Rightarrow> 'w state \<Rightarrow> (exn + unit) \<times> 'w state" where
  "on_ceph_nfs_connected env rel s =
     (if \<not> leader s then (Inr (), s)
      else if get_osd_count env (world s) = 0 then
        (Inr (),
         (add_log INFO ''Storage not available, deferring event.'' []
           (add_call GetOsdCount s))\<lparr>deferred := True\<rparr>)
      else
        (case service_relation env rel
                (add_log INFO ''Processing ceph-nfs connected'' [] (add_call GetOsdCount s)) of
           (Inl ex, s1) \<Rightarrow> (Inl ex, s1)
         | (Inr ok, s1) \<Rightarrow>
             if \<not> ok then
               (Inr (),
                (add_log ERROR
                   ''An error occurred while handling the ceph-nfs relation, deferring.'' []
                   s1)\<lparr>deferred := True\<rparr>)
             else (Inr (), s1)))"

definition on_ceph_nfs_reconcile ::
  "'w env \<Rightarrow> relation \<Rightarrow> 'w state \<Rightarrow> (exn + unit) \<times> 'w state" where
  "on_ceph_nfs_reconcile env rel s = on_ceph_nfs_connected env rel s"

text \<open>
  The loop of lines 214 and 215: \<^verbatim>\<open>_service_relation\<close> for each of the other
  relations, its result dropped; an exception ends the loop.
\<close>

fun service_each ::
  "'w env \<Rightarrow> relation list \<Rightarrow> 'w state \<Rightarrow> (exn + unit) \<times> 'w state" where
  "service_each env [] s = (Inr (), s)"
| "service_each env (r # other_relations) s =
     (case service_relation env r s of
        (Inl ex, s1) \<Rightarrow> (Inl ex, s1)
      | (Inr ok, s1) \<Rightarrow> service_each env other_relations s1)"

text \<open>
  \<^verbatim>\<open>_on_ceph_nfs_departed\<close>, for an event of the relation \<open>rel\<close>. There is no
  \<^verbatim>\<open>try\<close> in the method: an exception of \<^verbatim>\<open>_remove_nfs_cluster\<close> leaves it at once.
\<close>

definition on_ceph_nfs_departed ::
  "'w env \<Rightarrow> relation \<Rightarrow> 'w state \<Rightarrow> (exn + unit) \<times> 'w state" where
  "on_ceph_nfs_departed env rel s =
     (if \<not> leader s then (Inr (), s)
      else
        (let cluster_id = app_name rel in
         case remove_nfs_cluster env cluster_id
                (add_log INFO ''Processing ceph-nfs departed'' [] s) of
           (Inl ex, s1) \<Rightarrow> (Inl ex, s1)
         | (Inr u, s1) \<Rightarrow>
             (let client_name = ''client.'' @ app_name rel;
                  s2 = add_call (RemoveNamedKey client_name)
                         (s1\<lparr>world := remove_named_key env client_name (world s1)\<rparr>);
                  other_relations = filter (\<lambda>r. r \<noteq> rel) (relations s2)
              in service_each env other_relations s2)))"

subsection \<open>Reading the trace\<close>

text \<open>The calls a run has added to the trace of the state \<open>s\<close> it started in.\<close>

definition new_calls :: "'w state \<Rightarrow> 'w state \<Rightarrow> call list" where
  "new_calls s s' = drop (length (calls s)) (calls s')"

fun is_enable :: "string \<Rightarrow> call \<Rightarrow> bool" where
  "is_enable cluster_id (EnableNfs h g a out) = (g = cluster_id)"
| "is_enable cluster_id c = False"

fun enable_ok :: "call \<Rightarrow> bool" where
  "enable_ok (EnableNfs h g a None) = True"
| "enable_ok c = False"

fun is_teardown_call :: "call \<Rightarrow> bool" where
  "is_teardown_call ListServices = True"
| "is_teardown_call (DisableNfs h g out) = True"
| "is_teardown_call c = False"

text \<open>Whether the address lookup gives an address the loop goes on with.\<close>

definition resolves :: "'w state \<Rightarrow> string \<Rightarrow> string \<Rightarrow> bool" where
  "resolves s candidate public_addr =
     (get_public_address s candidate = Inr (Some public_addr) \<and> public_addr \<noteq> [])"

subsection \<open>A small cluster to run the handlers on\<close>

text \<open>
  Modelled from the spec: the modules \<^verbatim>\<open>microceph\<close>, \<^verbatim>\<open>ceph\<close>, \<^verbatim>\<open>utils\<close> and
  \<^verbatim>\<open>microceph_client\<close> are missing. This stand-in for them is only used to run the
  handlers on concrete inputs; the general properties below hold for every \<open>env\<close>. It
  follows section 6 of the specification: the inventory is a list of services; enabling
  nfs on a host adds an instance of the group on that host, disabling removes it; each
  of the two raises on the hosts listed for it and then changes nothing. Fetching the
  named key raises for the client names listed in \<open>key_fails\<close>; the other calls return.
\<close>

record sim =
  inventory :: "svc list"
  enable_fails :: "string list"
  disable_fails :: "string list"
  volumes :: "string list"
  keyring :: "string list"
  key_fails :: "string list"
  osds :: int

definition nfs_on :: "string \<Rightarrow> string \<Rightarrow> svc" where
  "nfs_on g h = \<lparr>service = ''nfs'', group_id = Some g, location = h\<rparr>"

definition other_on :: "string \<Rightarrow> string \<Rightarrow> svc" where
  "other_on kind h = \<lparr>service = kind, group_id = None, location = h\<rparr>"

definition sim_enable :: "string \<Rightarrow> string \<Rightarrow> string \<Rightarrow> sim \<Rightarrow> (exn + unit) \<times> sim" where
  "sim_enable h g a w =
     (if h \<in> set (enable_fails w) then (Inl (Failure ''enable failed''), w)
      else (Inr (), w\<lparr>inventory := inventory w @ [nfs_on g h]\<rparr>))"

definition sim_disable :: "string \<Rightarrow> string \<Rightarrow> sim \<Rightarrow> (exn + unit) \<times> sim" where
  "sim_disable h g w =
     (if h \<in> set (disable_fails w) then (Inl (Failure ''disable failed''), w)
      else (Inr (), w\<lparr>inventory := removeAll (nfs_on g h) (inventory w)\<rparr>))"

definition sim_get_named_key ::
  "string \<Rightarrow> (string \<times> string list) list \<Rightarrow> sim \<Rightarrow> (exn + string) \<times> sim" where
  "sim_get_named_key c cs w =
     (if c \<in> set (key_fails w) then (Inl (Failure ''no key''), w)
      else (Inr (''key-'' @ c), w\<lparr>keyring := List.insert c (keyring w)\<rparr>))"

definition sim_env :: "sim env" where
  "sim_env =
     \<lparr>get_osd_count = osds,
      list_services = (\<lambda>w. Inr (inventory w)),
      enable_nfs = sim_enable,
      disable_nfs = sim_disable,
      list_fs_volumes = (\<lambda>w. Inr (volumes w)),
      create_fs_volume = (\<lambda>v w. (Inr (), w\<lparr>volumes := volumes w @ [v]\<rparr>)),
      get_named_key = sim_get_named_key,
      remove_named_key = (\<lambda>c w. w\<lparr>keyring := removeAll c (keyring w)\<rparr>),
      get_mon_addresses = (\<lambda>w. Inr [''10.0.0.1'']),
      get_fsid = (\<lambda>w. Inr ''f5id''),
      json_dumps = concat,
      set_iter = remdups\<rparr>"

definition sim_state :: "sim \<Rightarrow> bool \<Rightarrow> peer list option \<Rightarrow> relation list \<Rightarrow> sim state" where
  "sim_state w ldr ps rels =
     \<lparr>world = w, leader = ldr, peers = ps, relations = rels,
      rel_data = (\<lambda>r. Map.empty), deferred = False, calls = [], logs = []\<rparr>"

text \<open>A peer unit on host \<open>h\<close> that has published the address \<open>a\<close>.\<close>

definition peer_on :: "string \<Rightarrow> string \<Rightarrow> string \<Rightarrow> peer" where
  "peer_on u h a = (u, [u \<mapsto> h, ''public-address'' \<mapsto> a])"

subsection \<open>What teardown writes to the log\<close>

definition disable_error_log :: "string \<Rightarrow> string \<Rightarrow> exn \<Rightarrow> logrec" where
  "disable_error_log cluster_id host ex =
     (ERROR, ''Could not disable nfs (cluster_id '%s') on host '%s': %s'',
      [Str cluster_id, Str host, Exc ex])"

subsection \<open>The candidate set as the specification words it\<close>

text \<open>
  The specification takes the host universe from the peer topology of the Address
  Resolver: the hosts that the units of the peer relation have published. Its candidate
  set is that universe without the hosts of the nfs services. These two definitions
  follow the specification, not the code; they are compared with \<open>candidates_of\<close> below.
\<close>

definition peer_hosts :: "peer list \<Rightarrow> string list" where
  "peer_hosts units = List.map_filter (\<lambda>(unit_name, unit_data). unit_data unit_name) units"

definition spec_candidates :: "peer list \<Rightarrow> svc list \<Rightarrow> string list" where
  "spec_candidates units services =
     filter (\<lambda>h. h \<notin> set (map location (filter (\<lambda>s. service s = ''nfs'') services)))
       (remdups (peer_hosts units))"

subsection \<open>Concrete clusters\<close>

text \<open>
  Four hosts that each run a monitor, their peer units, two consumer relations \<open>a\<close>
  and \<open>b\<close>, and the states the handlers are run on below.
\<close>

definition quiet :: "svc list \<Rightarrow> sim" where
  "quiet xs = \<lparr>inventory = xs, enable_fails = [], disable_fails = [], volumes = [],
                keyring = [], key_fails = [], osds = 3\<rparr>"

definition four_peers :: "peer list" where
  "four_peers =
     [peer_on ''microceph/1'' ''h1'' ''10.0.0.1'', peer_on ''microceph/2'' ''h2'' ''10.0.0.2'',
      peer_on ''microceph/3'' ''h3'' ''10.0.0.3'', peer_on ''microceph/4'' ''h4'' ''10.0.0.4'']"

definition mons :: "svc list" where
  "mons = [other_on ''mon'' ''h1'', other_on ''mon'' ''h2'', other_on ''mon'' ''h3'',
           other_on ''mon'' ''h4'']"

definition rel_a :: relation where "rel_a = \<lparr>rel_id = 1, app_name = ''a''\<rparr>"

definition rel_b :: relation where "rel_b = \<lparr>rel_id = 2, app_name = ''b''\<rparr>"

definition three_of_a :: "svc list" where
  "three_of_a = mons @ [nfs_on ''a'' ''h1'', nfs_on ''a'' ''h2'', nfs_on ''a'' ''h3'']"

definition scenario4_state :: "sim state" where
  "scenario4_state =
     sim_state ((quiet three_of_a)\<lparr>disable_fails := [''h2'']\<rparr>) True (Some four_peers) [rel_a]"

definition depart_state :: "sim state" where
  "depart_state =
     sim_state ((quiet three_of_a)\<lparr>disable_fails := [''h3''], keyring := [''client.a'']\<rparr>)
       True (Some four_peers) [rel_a]"

definition p5_inventory :: "svc list" where
  "p5_inventory = three_of_a @ [nfs_on ''b'' ''h4'']"

definition p5_state :: "sim state" where
  "p5_state = sim_state (quiet p5_inventory) True (Some four_peers) [rel_a, rel_b]"

definition blocked_state :: "sim state" where
  "blocked_state =
     sim_state ((quiet p5_inventory)\<lparr>disable_fails := [''h1'']\<rparr>) True (Some four_peers)
       [rel_a, rel_b]"

definition two_peers :: "peer list" where
  "two_peers = [peer_on ''microceph/1'' ''h1'' ''10.0.0.1'', peer_on ''microceph/2'' ''h2'' ''10.0.0.2'']"

definition one_mon :: "svc list" where
  "one_mon = [other_on ''mon'' ''h1'']"

definition roster_state :: "sim state" where
  "roster_state = sim_state (quiet one_mon) True (Some two_peers) []"

definition flaky_state :: "sim state" where
  "flaky_state =
     sim_state ((quiet (butlast mons))\<lparr>enable_fails := [''h2'']\<rparr>) True (Some four_peers) [rel_a]"

definition full_state :: "sim state" where
  "full_state = sim_state (quiet three_of_a) True (Some four_peers) [rel_a]"

definition five_hosts :: "svc list" where
  "five_hosts = mons @ [other_on ''osd'' ''h5'', nfs_on ''a'' ''h1'']"

definition five_peers :: "peer list" where
  "five_peers = four_peers @ [peer_on ''microceph/5'' ''h5'' ''10.0.0.5'']"

definition growing_state :: "sim state" where
  "growing_state =
     sim_state ((quiet five_hosts)\<lparr>enable_fails := [''h3'']\<rparr>) True (Some five_peers) [rel_a]"

definition empty_state :: "sim state" where
  "empty_state = sim_state (quiet []) True (Some four_peers) [rel_a]"

definition stale_bag :: "string \<rightharpoonup> string" where
  "stale_bag = [''fsid'' \<mapsto> ''old'', ''extra'' \<mapsto> ''kept'']"

definition stale_empty_state :: "sim state" where
  "stale_empty_state = empty_state\<lparr>rel_data := (\<lambda>r. stale_bag)\<rparr>"

definition stale_full_state :: "sim state" where
  "stale_full_state = full_state\<lparr>rel_data := (\<lambda>r. stale_bag)\<rparr>"

definition keyless_state :: "sim state" where
  "keyless_state =
     (sim_state ((quiet three_of_a)\<lparr>key_fails := [''client.a'']\<rparr>) True (Some four_peers) [rel_a])
       \<lparr>rel_data := (\<lambda>r. stale_bag)\<rparr>"

definition record_keys :: "string list" where
  "record_keys = [''fsid'', ''mon-hosts'', ''keyring'', ''volume'', ''client'', ''cluster-id'',
                  ''extra'']"

definition follower_state :: "sim state" where
  "follower_state = sim_state (quiet p5_inventory) False (Some four_peers) [rel_a, rel_b]"

definition four_of_a :: "svc list" where
  "four_of_a = three_of_a @ [nfs_on ''a'' ''h4'']"

definition overfull_state :: "sim state" where
  "overfull_state = sim_state (quiet four_of_a) True (Some four_peers) [rel_a]"

section \<open>Properties\<close>

subsection \<open>The state record under the trace and the log\<close>

lemma add_call_simps [simp]:
  "calls (add_call c s) = calls s @ [c]"
  "world (add_call c s) = world s"
  "leader (add_call c s) = leader s"
  "peers (add_call c s) = peers s"
  "relations (add_call c s) = relations s"
  "rel_data (add_call c s) = rel_data s"
  "deferred (add_call c s) = deferred s"
  "logs (add_call c s) = logs s"
  by (simp_all add: add_call_def)

lemma add_log_simps [simp]:
  "calls (add_log l m as s) = calls s"
  "world (add_log l m as s) = world s"
  "leader (add_log l m as s) = leader s"
  "peers (add_log l m as s) = peers s"
  "relations (add_log l m as s) = relations s"
  "rel_data (add_log l m as s) = rel_data s"
  "deferred (add_log l m as s) = deferred s"
  "logs (add_log l m as s) = logs s @ [(l, m, as)]"
  by (simp_all add: add_log_def)

lemma log_simps [simp]:
  "calls (log_no_address c s) = calls s"
  "world (log_no_address c s) = world s"
  "leader (log_no_address c s) = leader s"
  "peers (log_no_address c s) = peers s"
  "relations (log_no_address c s) = relations s"
  "rel_data (log_no_address c s) = rel_data s"
  "deferred (log_no_address c s) = deferred s"
  "calls (log_enable_error g c ex s) = calls s"
  "world (log_enable_error g c ex s) = world s"
  "leader (log_enable_error g c ex s) = leader s"
  "peers (log_enable_error g c ex s) = peers s"
  "relations (log_enable_error g c ex s) = relations s"
  "rel_data (log_enable_error g c ex s) = rel_data s"
  "deferred (log_enable_error g c ex s) = deferred s"
  by (simp_all add: log_no_address_def log_enable_error_def)

lemma get_public_address_peers:
  "peers s' = peers s \<Longrightarrow> get_public_address s' c = get_public_address s c"
  by (simp add: get_public_address_def)


lemma enroll_Cons_cases [consumes 1]:
  assumes "enroll env g (c # cs) n s = (n', s')"
  obtains
    (skip) s1 where "\<And>a. \<not> resolves s c a" "enroll env g cs n s1 = (n', s')"
      "calls s1 = calls s" "world s1 = world s" "peers s1 = peers s" "leader s1 = leader s"
      "relations s1 = relations s" "rel_data s1 = rel_data s" "deferred s1 = deferred s"
  | (fail) a ex w s1 where "resolves s c a" "enable_nfs env c g a (world s) = (Inl ex, w)"
      "enroll env g cs n s1 = (n', s')"
      "calls s1 = calls s @ [EnableNfs c g a (Some ex)]" "world s1 = w" "peers s1 = peers s"
      "leader s1 = leader s" "relations s1 = relations s" "rel_data s1 = rel_data s"
      "deferred s1 = deferred s"
  | (last) a w where "resolves s c a" "enable_nfs env c g a (world s) = (Inr (), w)"
      "n + 1 = 3" "n' = 3" "s' = add_call (EnableNfs c g a None) (s\<lparr>world := w\<rparr>)"
  | (more) a w where "resolves s c a" "enable_nfs env c g a (world s) = (Inr (), w)"
      "n + 1 \<noteq> 3"
      "enroll env g cs (n + 1) (add_call (EnableNfs c g a None) (s\<lparr>world := w\<rparr>)) = (n', s')"
proof (cases "get_public_address s c")
  case (Inl ex)
  have 1: "\<And>a. \<not> resolves s c a" using Inl by (simp add: resolves_def)
  have 2: "enroll env g cs n (log_enable_error g c ex s) = (n', s')" using assms Inl by simp
  show ?thesis by (rule skip [OF 1 2]) simp_all
next
  case (Inr r)
  show ?thesis
  proof (cases "\<exists>a. r = Some a \<and> a \<noteq> []")
    case False
    have 1: "\<And>a. \<not> resolves s c a" using Inr False by (auto simp: resolves_def)
    have 2: "enroll env g cs n (log_no_address c s) = (n', s')"
      using Inr False assms by (cases r) auto
    show ?thesis by (rule skip [OF 1 2]) simp_all
  next
    case True
    then obtain a where a: "r = Some a" "a \<noteq> []" by blast
    with Inr have res: "resolves s c a" by (simp add: resolves_def)
    obtain out w where en: "enable_nfs env c g a (world s) = (out, w)"
      by (cases "enable_nfs env c g a (world s)")
    show ?thesis
    proof (cases out)
      case (Inl ex)
      have en': "enable_nfs env c g a (world s) = (Inl ex, w)" using en Inl by simp
      have 2: "enroll env g cs n (log_enable_error g c ex
               (add_call (EnableNfs c g a (Some ex)) (s\<lparr>world := w\<rparr>))) = (n', s')"
        using assms \<open>get_public_address s c = Inr r\<close> a en' by simp
      show ?thesis by (rule fail [OF res en' 2]) simp_all
    next
      case (Inr u)
      have en': "enable_nfs env c g a (world s) = (Inr (), w)" using en Inr by simp
      show ?thesis
      proof (cases "n + 1 = 3")
        case True
        have "n' = 3" "s' = add_call (EnableNfs c g a None) (s\<lparr>world := w\<rparr>)"
          using assms \<open>get_public_address s c = Inr r\<close> a en' True by auto
        then show ?thesis by (rule last [OF res en' True])
      next
        case False
        have "enroll env g cs (n + 1) (add_call (EnableNfs c g a None) (s\<lparr>world := w\<rparr>)) = (n', s')"
          using assms \<open>get_public_address s c = Inr r\<close> a en' False by auto
        then show ?thesis by (rule more [OF res en' False])
      qed
    qed
  qed
qed

lemma enroll_frame:
  "enroll env g cs n s = (n', s') \<Longrightarrow>
     peers s' = peers s \<and> leader s' = leader s \<and> relations s' = relations s \<and>
     rel_data s' = rel_data s \<and> deferred s' = deferred s"
proof (induction cs arbitrary: n s)
  case Nil
  then show ?case by simp
next
  case (Cons c cs)
  from Cons.prems show ?case
  proof (cases rule: enroll_Cons_cases)
    case (skip s1)
    with Cons.IH [OF skip(2)] show ?thesis by simp
  next
    case (fail a ex w s1)
    with Cons.IH [OF fail(3)] show ?thesis by simp
  next
    case (last a w)
    then show ?thesis by simp
  next
    case (more a w)
    with Cons.IH [OF more(4)] show ?thesis by simp
  qed
qed

lemma enroll_trace:
  "enroll env g cs n s = (n', s') \<Longrightarrow> n < 3 \<Longrightarrow>
     \<exists>tr. calls s' = calls s @ tr \<and> list_all (is_enable g) tr \<and>
          n' = n + length (filter enable_ok tr) \<and> n' \<le> 3 \<and>
          (n' = 3 \<longrightarrow> tr \<noteq> [] \<and> enable_ok (last tr))"
proof (induction cs arbitrary: n s)
  case Nil
  then show ?case by simp
next
  case (Cons c cs)
  from Cons.prems(1) show ?case
  proof (cases rule: enroll_Cons_cases)
    case (skip s1)
    with Cons.IH [OF skip(2) Cons.prems(2)] show ?thesis by simp
  next
    case (fail a ex w s1)
    from Cons.IH [OF fail(3) Cons.prems(2)] obtain tr where
      tr: "calls s' = calls s1 @ tr" "list_all (is_enable g) tr"
          "n' = n + length (filter enable_ok tr)" "n' \<le> 3"
          "n' = 3 \<longrightarrow> tr \<noteq> [] \<and> enable_ok (last tr)" by blast
    let ?tr = "EnableNfs c g a (Some ex) # tr"
    have "calls s' = calls s @ ?tr" using tr(1) fail(4) by simp
    moreover have "list_all (is_enable g) ?tr" using tr(2) by simp
    moreover have "n' = n + length (filter enable_ok ?tr)" using tr(3) by simp
    moreover have "n' = 3 \<longrightarrow> ?tr \<noteq> [] \<and> enable_ok (last ?tr)"
      using tr(3,5) Cons.prems(2) by auto
    ultimately show ?thesis using tr(4) by blast
  next
    case (last a w)
    let ?tr = "[EnableNfs c g a None]"
    have "calls s' = calls s @ ?tr" using last by simp
    moreover have "n' = n + length (filter enable_ok ?tr)" using last by simp
    ultimately show ?thesis using last(4) by force
  next
    case (more a w)
    from more(3) Cons.prems(2) have lt: "n + 1 < 3" by simp
    from Cons.IH [OF more(4) lt] obtain tr where
      tr: "calls s' = calls (add_call (EnableNfs c g a None) (s\<lparr>world := w\<rparr>)) @ tr"
          "list_all (is_enable g) tr"
          "n' = n + 1 + length (filter enable_ok tr)" "n' \<le> 3"
          "n' = 3 \<longrightarrow> tr \<noteq> [] \<and> enable_ok (last tr)" by blast
    let ?tr = "EnableNfs c g a None # tr"
    have "calls s' = calls s @ ?tr" using tr(1) by simp
    moreover have "list_all (is_enable g) ?tr" using tr(2) by simp
    moreover have "n' = n + length (filter enable_ok ?tr)" using tr(3) by simp
    moreover have "n' = 3 \<longrightarrow> ?tr \<noteq> [] \<and> enable_ok (last ?tr)"
      using tr(3,5) lt by auto
    ultimately show ?thesis using tr(4) by blast
  qed
qed

lemma enroll_trace_prefix:
  "enroll env g cs n s = (n', s') \<Longrightarrow> \<exists>tr. calls s' = calls s @ tr"
proof (induction cs arbitrary: n s)
  case Nil
  then show ?case by simp
next
  case (Cons c cs)
  from Cons.prems show ?case
  proof (cases rule: enroll_Cons_cases)
    case (skip s1)
    with Cons.IH [OF skip(2)] show ?thesis by simp
  next
    case (fail a ex w s1)
    from Cons.IH [OF fail(3)] obtain tr where "calls s' = calls s1 @ tr" ..
    with fail(4) have "calls s' = calls s @ (EnableNfs c g a (Some ex) # tr)" by simp
    then show ?thesis ..
  next
    case (last a w)
    then show ?thesis by simp
  next
    case (more a w)
    from Cons.IH [OF more(4)] obtain tr where
      "calls s' = calls (add_call (EnableNfs c g a None) (s\<lparr>world := w\<rparr>)) @ tr" ..
    then have "calls s' = calls s @ (EnableNfs c g a None # tr)" by simp
    then show ?thesis ..
  qed
qed

lemma resolves_peers: "peers s' = peers s \<Longrightarrow> resolves s' c a = resolves s c a"
  by (simp add: resolves_def get_public_address_def)

lemma resolves_fun: "resolves s c a \<Longrightarrow> resolves s c b \<Longrightarrow> a = b"
  by (simp add: resolves_def)

lemma enroll_attempts_all:
  "enroll env g cs n s = (n', s') \<Longrightarrow> n' < 3 \<Longrightarrow> c \<in> set cs \<Longrightarrow> resolves s c a \<Longrightarrow>
     \<exists>tr out. calls s' = calls s @ tr \<and> EnableNfs c g a out \<in> set tr"
proof (induction cs arbitrary: n s)
  case Nil
  then show ?case by simp
next
  case (Cons c0 cs)
  from Cons.prems(1) show ?case
  proof (cases rule: enroll_Cons_cases)
    case (skip s1)
    from skip(1) Cons.prems(4) have "c \<noteq> c0" by blast
    with Cons.prems(3) have mem: "c \<in> set cs" by simp
    have "resolves s1 c a" using Cons.prems(4) resolves_peers [OF skip(5)] by simp
    from Cons.IH [OF skip(2) Cons.prems(2) mem this] obtain tr out where
      "calls s' = calls s1 @ tr" "EnableNfs c g a out \<in> set tr" by blast
    with skip(3) have "calls s' = calls s @ tr \<and> EnableNfs c g a out \<in> set tr" by simp
    then show ?thesis by blast
  next
    case (fail a0 ex w s1)
    show ?thesis
    proof (cases "c = c0")
      case True
      with fail(1) Cons.prems(4) have "a0 = a" using resolves_fun by blast
      moreover from enroll_trace_prefix [OF fail(3)] obtain tr where "calls s' = calls s1 @ tr" ..
      ultimately have "calls s' = calls s @ (EnableNfs c g a (Some ex) # tr)"
        using fail(4) True by simp
      moreover have "EnableNfs c g a X \<in> set (EnableNfs c g a X # tr)" for X by simp
      ultimately show ?thesis by blast
    next
      case False
      with Cons.prems(3) have mem: "c \<in> set cs" by simp
      have "resolves s1 c a" using Cons.prems(4) resolves_peers [OF fail(6)] by simp
      from Cons.IH [OF fail(3) Cons.prems(2) mem this] obtain tr out where
        "calls s' = calls s1 @ tr" "EnableNfs c g a out \<in> set tr" by blast
      with fail(4) have "calls s' = calls s @ (EnableNfs c0 g a0 (Some ex) # tr)"
        "EnableNfs c g a out \<in> set (EnableNfs c0 g a0 (Some ex) # tr)" by simp_all
      then show ?thesis by blast
    qed
  next
    case (last a0 w)
    with Cons.prems(2) show ?thesis by simp
  next
    case (more a0 w)
    let ?s1 = "add_call (EnableNfs c0 g a0 None) (s\<lparr>world := w\<rparr>)"
    show ?thesis
    proof (cases "c = c0")
      case True
      with more(1) Cons.prems(4) have "a0 = a" using resolves_fun by blast
      moreover from enroll_trace_prefix [OF more(4)] obtain tr where "calls s' = calls ?s1 @ tr" ..
      ultimately have "calls s' = calls s @ (EnableNfs c g a None # tr)"
        using True by simp
      moreover have "EnableNfs c g a X \<in> set (EnableNfs c g a X # tr)" for X by simp
      ultimately show ?thesis by blast
    next
      case False
      with Cons.prems(3) have mem: "c \<in> set cs" by simp
      have "resolves ?s1 c a" using Cons.prems(4) resolves_peers [of ?s1 s] by simp
      from Cons.IH [OF more(4) Cons.prems(2) mem this] obtain tr out where
        "calls s' = calls ?s1 @ tr" "EnableNfs c g a out \<in> set tr" by blast
      then have "calls s' = calls s @ (EnableNfs c0 g a0 None # tr)"
        "EnableNfs c g a out \<in> set (EnableNfs c0 g a0 None # tr)" by simp_all
      then show ?thesis by blast
    qed
  qed
qed

subsection \<open>Unfolding \<open>ensure_nfs_cluster\<close>\<close>

lemma new_calls_append: "calls s' = calls s @ tr \<Longrightarrow> new_calls s s' = tr"
  by (simp add: new_calls_def)

lemma ensure_counted_raises:
  "list_services env (world s) = Inl ex \<Longrightarrow>
     ensure_nfs_cluster_counted env g s = (Inl ex, add_call ListServices s)"
  by (simp add: ensure_nfs_cluster_counted_def)

lemma ensure_counted_full:
  "list_services env (world s) = Inr services \<Longrightarrow> 3 \<le> length (members_of g services) \<Longrightarrow>
     ensure_nfs_cluster_counted env g s =
       (Inr (True, length (members_of g services)),
        add_log INFO ''NFS Cluster '%s' already exists, and there are >= 3 nodes in it.''
          [Str g] (add_call ListServices s))"
  by (auto simp add: ensure_nfs_cluster_counted_def members_of_def Let_def)

lemma ensure_counted_enroll:
  assumes "list_services env (world s) = Inr services" "length (members_of g services) < 3"
    and "enroll env g (candidates_of env services) (length (members_of g services))
           (add_call ListServices s) = (n, s1)"
  shows "\<exists>s'. ensure_nfs_cluster_counted env g s = (Inr (n \<noteq> 0, n), s') \<and>
              calls s' = calls s1 \<and> world s' = world s1 \<and> rel_data s' = rel_data s1 \<and>
              peers s' = peers s1 \<and> leader s' = leader s1 \<and> relations s' = relations s1 \<and>
              deferred s' = deferred s1"
  using assms by (auto simp add: ensure_nfs_cluster_counted_def members_of_def Let_def)

lemma ensure_projects:
  "ensure_nfs_cluster_counted env g s = (Inr (ok, n), s') \<Longrightarrow>
     ensure_nfs_cluster env g s = (Inr ok, s')"
  by (simp add: ensure_nfs_cluster_def)

lemma ensure_projects_raise:
  "ensure_nfs_cluster_counted env g s = (Inl ex, s') \<Longrightarrow>
     ensure_nfs_cluster env g s = (Inl ex, s')"
  by (simp add: ensure_nfs_cluster_def)

lemma ensure_counted_outcome:
  assumes "list_services env (world s) = Inr services"
    and "length (members_of g services) < 3"
  shows "\<exists>n s1 s'. enroll env g (candidates_of env services) (length (members_of g services))
             (add_call ListServices s) = (n, s1) \<and>
           ensure_nfs_cluster_counted env g s = (Inr (n \<noteq> 0, n), s') \<and>
           calls s' = calls s1 \<and> world s' = world s1 \<and> rel_data s' = rel_data s1"
proof -
  obtain n s1 where e: "enroll env g (candidates_of env services) (length (members_of g services))
             (add_call ListServices s) = (n, s1)" by (cases "enroll env g (candidates_of env services) (length (members_of g services))
             (add_call ListServices s)")
  from ensure_counted_enroll [OF assms e] e show ?thesis by blast
qed

lemma enroll_hosts:
  "enroll env g cs n s = (n', s') \<Longrightarrow>
     \<exists>tr. calls s' = calls s @ tr \<and> (\<forall>h g' a out. EnableNfs h g' a out \<in> set tr \<longrightarrow> h \<in> set cs)"
proof (induction cs arbitrary: n s)
  case Nil
  then show ?case by simp
next
  case (Cons c cs)
  from Cons.prems show ?case
  proof (cases rule: enroll_Cons_cases)
    case (skip s1)
    from Cons.IH [OF skip(2)] obtain tr where
      "calls s' = calls s1 @ tr" "\<forall>h g' a out. EnableNfs h g' a out \<in> set tr \<longrightarrow> h \<in> set cs"
      by blast
    with skip(3) have "calls s' = calls s @ tr \<and>
      (\<forall>h g' a out. EnableNfs h g' a out \<in> set tr \<longrightarrow> h \<in> set (c # cs))" by simp
    then show ?thesis ..
  next
    case (fail a ex w s1)
    from Cons.IH [OF fail(3)] obtain tr where
      "calls s' = calls s1 @ tr" "\<forall>h g' a out. EnableNfs h g' a out \<in> set tr \<longrightarrow> h \<in> set cs"
      by blast
    with fail(4) have "calls s' = calls s @ (EnableNfs c g a (Some ex) # tr) \<and>
      (\<forall>h g' a' out. EnableNfs h g' a' out \<in> set (EnableNfs c g a (Some ex) # tr)
         \<longrightarrow> h \<in> set (c # cs))" by simp
    then show ?thesis ..
  next
    case (last a w)
    then have "calls s' = calls s @ [EnableNfs c g a None] \<and>
      (\<forall>h g' a' out. EnableNfs h g' a' out \<in> set [EnableNfs c g a None]
         \<longrightarrow> h \<in> set (c # cs))" by simp
    then show ?thesis ..
  next
    case (more a w)
    from Cons.IH [OF more(4)] obtain tr where
      "calls s' = calls (add_call (EnableNfs c g a None) (s\<lparr>world := w\<rparr>)) @ tr"
      "\<forall>h g' a out. EnableNfs h g' a out \<in> set tr \<longrightarrow> h \<in> set cs"
      by blast
    then have "calls s' = calls s @ (EnableNfs c g a None # tr) \<and>
      (\<forall>h g' a' out. EnableNfs h g' a' out \<in> set (EnableNfs c g a None # tr)
         \<longrightarrow> h \<in> set (c # cs))" by simp
    then show ?thesis ..
  qed
qed

lemma is_enable_not_disable:
  "list_all (is_enable g) tr \<Longrightarrow> DisableNfs h g' out \<notin> set tr"
  by (induction tr) auto

lemma is_enable_group:
  "list_all (is_enable g) tr \<Longrightarrow> EnableNfs h g' a out \<in> set tr \<Longrightarrow> g' = g"
  by (induction tr) auto

lemma ensure_trace:
  "\<exists>r s' tr. ensure_nfs_cluster env cluster_id s = (r, s') \<and>
     calls s' = calls s @ ListServices # tr \<and> list_all (is_enable cluster_id) tr \<and>
     (\<forall>services. list_services env (world s) = Inr services \<and>
          3 < length (members_of cluster_id services) \<longrightarrow>
        r = Inr True \<and> tr = [] \<and> world s' = world s)"
proof (cases "list_services env (world s)")
  case (Inl ex)
  from ensure_projects_raise [OF ensure_counted_raises [OF Inl]]
  have "ensure_nfs_cluster env cluster_id s = (Inl ex, add_call ListServices s)" .
  moreover have "calls (add_call ListServices s) = calls s @ ListServices # []" by simp
  moreover have "list_all (is_enable cluster_id) []" by simp
  ultimately show ?thesis using Inl by force
next
  case (Inr services)
  show ?thesis
  proof (cases "3 \<le> length (members_of cluster_id services)")
    case True
    from ensure_projects [OF ensure_counted_full [OF Inr True]] obtain s' where
      "ensure_nfs_cluster env cluster_id s = (Inr True, s')"
      "calls s' = calls s @ ListServices # []" "world s' = world s" by simp
    moreover have "list_all (is_enable cluster_id) []" by simp
    ultimately show ?thesis by blast
  next
    case False
    then have lt: "length (members_of cluster_id services) < 3" by simp
    from ensure_counted_outcome [OF Inr lt] obtain n s1 s' where
      e: "enroll env cluster_id (candidates_of env services)
            (length (members_of cluster_id services)) (add_call ListServices s) = (n, s1)"
      and r: "ensure_nfs_cluster_counted env cluster_id s = (Inr (n \<noteq> 0, n), s')"
      and c: "calls s' = calls s1" by blast
    from enroll_trace [OF e lt] obtain tr where
      "calls s1 = calls (add_call ListServices s) @ tr" "list_all (is_enable cluster_id) tr"
      by blast
    with c have "calls s' = calls s @ ListServices # tr" by simp
    with ensure_projects [OF r] \<open>list_all (is_enable cluster_id) tr\<close> Inr lt
    show ?thesis by auto
  qed
qed

lemma ensure_counted_frame:
  assumes "ensure_nfs_cluster_counted env g s = (r, s')"
  shows "rel_data s' = rel_data s \<and> leader s' = leader s \<and> relations s' = relations s \<and>
         peers s' = peers s \<and> deferred s' = deferred s \<and> (\<forall>ok n. r = Inr (ok, n) \<longrightarrow> ok = (n \<noteq> 0))"
proof (cases "list_services env (world s)")
  case (Inl ex)
  from ensure_counted_raises [OF Inl, of g] assms show ?thesis by auto
next
  case (Inr services)
  show ?thesis
  proof (cases "3 \<le> length (members_of g services)")
    case True
    from ensure_counted_full [OF Inr True] assms True show ?thesis by auto
  next
    case False
    then have lt: "length (members_of g services) < 3" by simp
    obtain n s1 where e: "enroll env g (candidates_of env services)
        (length (members_of g services)) (add_call ListServices s) = (n, s1)"
      by (cases "enroll env g (candidates_of env services)
        (length (members_of g services)) (add_call ListServices s)")
    from ensure_counted_enroll [OF Inr lt e] assms enroll_frame [OF e]
    show ?thesis by auto
  qed
qed

lemma ensure_fs_volume_frame:
  "ensure_fs_volume env v s = (r, s') \<Longrightarrow> rel_data s' = rel_data s"
  by (auto simp: ensure_fs_volume_def Let_def split: sum.splits prod.splits if_splits)

lemma ensure_calls_prefix:
  assumes "ensure_nfs_cluster env g s = (r, s')"
  shows "\<exists>tr. calls s' = calls s @ tr"
proof -
  from ensure_trace [of env g s] obtain r0 s0 tr where
    "ensure_nfs_cluster env g s = (r0, s0)" "calls s0 = calls s @ ListServices # tr" by blast
  with assms have "calls s' = calls s @ ListServices # tr" by simp
  then show ?thesis ..
qed

lemma ensure_fs_volume_calls:
  "ensure_fs_volume env v s = (r, s') \<Longrightarrow> \<exists>tr. calls s' = calls s @ tr"
  by (auto simp: ensure_fs_volume_def Let_def split: sum.splits prod.splits if_splits)

lemma service_relation_calls_prefix:
  assumes "service_relation env rel s = (r, s')"
  shows "\<exists>tr. calls s' = calls s @ tr"
proof -
  obtain r1 s1 where e: "ensure_nfs_cluster env (app_name rel) s = (r1, s1)"
    by (cases "ensure_nfs_cluster env (app_name rel) s")
  from ensure_calls_prefix [OF e] obtain tr1 where tr1: "calls s1 = calls s @ tr1" ..
  show ?thesis
  proof (cases r1)
    case (Inl ex)
    with assms e have "s' = s1" by (simp add: service_relation_def)
    with tr1 show ?thesis by blast
  next
    case (Inr ok)
    show ?thesis
    proof (cases ok)
      case False
      with assms e Inr have "calls s' = calls s1" by (auto simp: service_relation_def)
      with tr1 show ?thesis by simp
    next
      case True
      obtain r2 s2 where v: "ensure_fs_volume env (app_name rel @ ''-vol'') s1 = (r2, s2)"
        by (cases "ensure_fs_volume env (app_name rel @ ''-vol'') s1")
      from ensure_fs_volume_calls [OF v] obtain tr2 where tr2: "calls s2 = calls s1 @ tr2" ..
      from assms e Inr True v have "\<exists>tr3. calls s' = calls s2 @ tr3"
        by (auto simp: service_relation_def Let_def split: sum.splits prod.splits)
      then obtain tr3 where "calls s' = calls s2 @ tr3" ..
      with tr1 tr2 have "calls s' = calls s @ (tr1 @ tr2 @ tr3)" by simp
      then show ?thesis ..
    qed
  qed
qed

lemma service_each_calls_prefix:
  "service_each env rs s = (r, s') \<Longrightarrow> \<exists>tr. calls s' = calls s @ tr"
proof (induction rs arbitrary: s)
  case Nil
  then show ?case by simp
next
  case (Cons x rs)
  obtain r1 s1 where e: "service_relation env x s = (r1, s1)"
    by (cases "service_relation env x s")
  from service_relation_calls_prefix [OF e] obtain tr1 where tr1: "calls s1 = calls s @ tr1" ..
  show ?case
  proof (cases r1)
    case (Inl ex)
    with Cons.prems e have "s' = s1" by simp
    with tr1 show ?thesis by blast
  next
    case (Inr ok)
    with Cons.prems e have "service_each env rs s1 = (r, s')" by simp
    from Cons.IH [OF this] obtain tr where "calls s' = calls s1 @ tr" ..
    with tr1 have "calls s' = calls s @ (tr1 @ tr)" by simp
    then show ?thesis ..
  qed
qed


subsection \<open>The teardown loop\<close>

lemma disable_each_frame:
  "disable_each env g svs s = (r, s') \<Longrightarrow>
     rel_data s' = rel_data s \<and> leader s' = leader s \<and> relations s' = relations s \<and>
     peers s' = peers s \<and> deferred s' = deferred s"
proof (induction svs arbitrary: s)
  case Nil
  then show ?case by simp
next
  case (Cons sv svs)
  obtain out w where d: "disable_nfs env (location sv) g (world s) = (out, w)"
    by (cases "disable_nfs env (location sv) g (world s)")
  show ?case
  proof (cases out)
    case (Inl ex)
    with Cons.prems d show ?thesis by (auto simp: Let_def)
  next
    case (Inr u)
    with Cons.prems d have "disable_each env g svs
        (add_call (DisableNfs (location sv) g None) (s\<lparr>world := w\<rparr>)) = (r, s')"
      by (simp add: Let_def)
    from Cons.IH [OF this] show ?thesis by simp
  qed
qed

lemma disable_each_trace:
  "disable_each env g svs s = (r, s') \<Longrightarrow>
     (r = Inr () \<longrightarrow>
        calls s' = calls s @ map (\<lambda>x. DisableNfs (location x) g None) svs \<and> logs s' = logs s) \<and>
     (\<forall>ex. r = Inl ex \<longrightarrow>
        (\<exists>k<length svs.
           calls s' = calls s @ map (\<lambda>x. DisableNfs (location x) g None) (take k svs) @
                        [DisableNfs (location (svs ! k)) g (Some ex)] \<and>
           logs s' = logs s @ [disable_error_log g (location (svs ! k)) ex]))"
proof (induction svs arbitrary: s)
  case Nil
  then show ?case by auto
next
  case (Cons sv svs)
  obtain out w where d: "disable_nfs env (location sv) g (world s) = (out, w)"
    by (cases "disable_nfs env (location sv) g (world s)")
  show ?case
  proof (cases out)
    case (Inl ex)
    with Cons.prems d have r: "r = Inl ex"
      and c: "calls s' = calls s @ [DisableNfs (location sv) g (Some ex)]"
      and l: "logs s' = logs s @ [disable_error_log g (location sv) ex]"
      by (auto simp: Let_def disable_error_log_def)
    have "0 < length (sv # svs) \<and>
          calls s' = calls s @ map (\<lambda>x. DisableNfs (location x) g None) (take 0 (sv # svs)) @
                        [DisableNfs (location ((sv # svs) ! 0)) g (Some ex)] \<and>
          logs s' = logs s @ [disable_error_log g (location ((sv # svs) ! 0)) ex]"
      using c l by simp
    then have "\<exists>k<length (sv # svs).
          calls s' = calls s @ map (\<lambda>x. DisableNfs (location x) g None) (take k (sv # svs)) @
                        [DisableNfs (location ((sv # svs) ! k)) g (Some ex)] \<and>
          logs s' = logs s @ [disable_error_log g (location ((sv # svs) ! k)) ex]" by blast
    with r show ?thesis by simp
  next
    case (Inr u)
    let ?s1 = "add_call (DisableNfs (location sv) g None) (s\<lparr>world := w\<rparr>)"
    from Inr Cons.prems d have rec: "disable_each env g svs ?s1 = (r, s')"
      by (simp add: Let_def)
    note IH = Cons.IH [OF rec]
    have ok: "calls s' = calls s @ map (\<lambda>x. DisableNfs (location x) g None) (sv # svs) \<and>
              logs s' = logs s" if "r = Inr ()"
      using IH that by simp
    have bad: "\<exists>k<length (sv # svs).
          calls s' = calls s @ map (\<lambda>x. DisableNfs (location x) g None) (take k (sv # svs)) @
                        [DisableNfs (location ((sv # svs) ! k)) g (Some ex)] \<and>
          logs s' = logs s @ [disable_error_log g (location ((sv # svs) ! k)) ex]"
      if "r = Inl ex" for ex
    proof -
      from IH that obtain k where k: "k < length svs"
        "calls s' = calls ?s1 @ map (\<lambda>x. DisableNfs (location x) g None) (take k svs) @
                        [DisableNfs (location (svs ! k)) g (Some ex)]"
        "logs s' = logs ?s1 @ [disable_error_log g (location (svs ! k)) ex]" by blast
      then have "Suc k < length (sv # svs) \<and>
          calls s' = calls s @ map (\<lambda>x. DisableNfs (location x) g None) (take (Suc k) (sv # svs)) @
                        [DisableNfs (location ((sv # svs) ! Suc k)) g (Some ex)] \<and>
          logs s' = logs s @ [disable_error_log g (location ((sv # svs) ! Suc k)) ex]"
        by simp
      then show ?thesis by blast
    qed
    from ok bad show ?thesis by blast
  qed
qed

lemma disable_each_teardown_calls:
  "disable_each env g svs s = (r, s') \<Longrightarrow>
     \<exists>tr. calls s' = calls s @ tr \<and> list_all is_teardown_call tr"
proof -
  assume a: "disable_each env g svs s = (r, s')"
  have m: "list_all is_teardown_call (map (\<lambda>x. DisableNfs (location x) g None) xs)" for xs
    by (induction xs) simp_all
  show ?thesis
  proof (cases r)
    case (Inr u)
    with disable_each_trace [OF a]
    have "calls s' = calls s @ map (\<lambda>x. DisableNfs (location x) g None) svs" by simp
    with m show ?thesis by blast
  next
    case (Inl ex)
    with disable_each_trace [OF a] obtain k where
      "calls s' = calls s @ (map (\<lambda>x. DisableNfs (location x) g None) (take k svs) @
                        [DisableNfs (location (svs ! k)) g (Some ex)])" by auto
    moreover have "list_all is_teardown_call (map (\<lambda>x. DisableNfs (location x) g None) (take k svs) @
                        [DisableNfs (location (svs ! k)) g (Some ex)])" using m by simp
    ultimately show ?thesis by blast
  qed
qed

lemma remove_nfs_cluster_facts:
  assumes "remove_nfs_cluster env g s = (r, s')"
  shows "(\<exists>tr. calls s' = calls s @ tr \<and> list_all is_teardown_call tr) \<and>
         relations s' = relations s \<and> rel_data s' = rel_data s \<and> leader s' = leader s \<and>
         peers s' = peers s \<and> deferred s' = deferred s"
proof (cases "list_services env (world s)")
  case (Inl ex)
  with assms have "s' = add_call ListServices s" by (simp add: remove_nfs_cluster_def)
  then have "calls s' = calls s @ [ListServices] \<and> list_all is_teardown_call [ListServices]"
    and "relations s' = relations s \<and> rel_data s' = rel_data s \<and> leader s' = leader s \<and>
         peers s' = peers s \<and> deferred s' = deferred s" by simp_all
  then show ?thesis by blast
next
  case (Inr services)
  with assms have d: "disable_each env g (members_of g services) (add_call ListServices s) = (r, s')"
    by (simp add: remove_nfs_cluster_def)
  from disable_each_teardown_calls [OF d] obtain tr where
    "calls s' = calls (add_call ListServices s) @ tr" "list_all is_teardown_call tr" by blast
  then have "calls s' = calls s @ (ListServices # tr) \<and> list_all is_teardown_call (ListServices # tr)"
    by simp
  then have "\<exists>tr. calls s' = calls s @ tr \<and> list_all is_teardown_call tr" ..
  with disable_each_frame [OF d] show ?thesis by simp
qed

lemma teardown_call_not_revoke: "list_all is_teardown_call tr \<Longrightarrow> RemoveNamedKey c \<notin> set tr"
  by (induction tr) auto

subsection \<open>Running the handlers on the concrete clusters\<close>

lemmas run_defs = sim_env_def sim_state_def quiet_def four_peers_def mons_def rel_a_def rel_b_def
  three_of_a_def scenario4_state_def depart_state_def p5_inventory_def p5_state_def
  blocked_state_def two_peers_def one_mon_def roster_state_def flaky_state_def full_state_def
  five_hosts_def five_peers_def growing_state_def empty_state_def follower_state_def
  four_of_a_def overfull_state_def stale_bag_def stale_empty_state_def stale_full_state_def
  keyless_state_def record_keys_def sim_get_named_key_def databag_set_def
  on_ceph_nfs_departed_def remove_nfs_cluster_def members_of_def service_relation_def
  ensure_nfs_cluster_def ensure_nfs_cluster_counted_def candidates_of_def get_public_address_def
  ensure_fs_volume_def add_call_def add_log_def log_no_address_def log_enable_error_def
  sim_enable_def sim_disable_def nfs_on_def other_on_def peer_on_def caps_def Let_def

lemma pair_of_fst: "fst p = a \<Longrightarrow> p = (a, snd p)"
  by (cases p) simp

section \<open>The claims\<close>

subsection \<open>C1: teardown and a failing Disable\<close>

text \<open>
  C1 says that teardown attempts a Disable for every instance of the target group and
  that a failure on one host does not stop the attempts on the others. The code does
  not do that: the \<^verbatim>\<open>except\<close> branch of \<^verbatim>\<open>_remove_nfs_cluster\<close> logs the error and
  re-raises it. With three members of group \<open>a\<close> on \<open>h1\<close>, \<open>h2\<close>, \<open>h3\<close> and a Disable
  that fails on \<open>h2\<close>, teardown disables \<open>h1\<close>, fails on \<open>h2\<close>, raises, and never calls
  Disable for \<open>h3\<close>, which stays in the inventory.
\<close>

theorem teardown_best_effort_counterexample:
  "members_of ''a'' three_of_a = [nfs_on ''a'' ''h1'', nfs_on ''a'' ''h2'', nfs_on ''a'' ''h3''] \<and>
   fst (remove_nfs_cluster sim_env ''a'' scenario4_state) = Inl (Failure ''disable failed'') \<and>
   calls (snd (remove_nfs_cluster sim_env ''a'' scenario4_state)) =
     [ListServices, DisableNfs ''h1'' ''a'' None,
      DisableNfs ''h2'' ''a'' (Some (Failure ''disable failed''))] \<and>
   inventory (world (snd (remove_nfs_cluster sim_env ''a'' scenario4_state))) =
     mons @ [nfs_on ''a'' ''h2'', nfs_on ''a'' ''h3'']"
  by (simp add: run_defs)

text \<open>
  C1, amended: teardown queries the inventory and calls Disable for the instances of the
  target group in inventory order. When every call returns, there is exactly one call
  for each matching instance. When a call raises, it is the last call: the failure is
  logged, the exception leaves the method, and no Disable is attempted for the
  matching instances after it.
\<close>

theorem teardown_stops_at_first_failure:
  assumes "list_services env (world s) = Inr services"
    and "remove_nfs_cluster env cluster_id s = (r, s')"
  shows "(r = Inr () \<longrightarrow>
            new_calls s s' =
              ListServices # map (\<lambda>x. DisableNfs (location x) cluster_id None)
                               (members_of cluster_id services)) \<and>
         (\<forall>ex. r = Inl ex \<longrightarrow>
            (\<exists>k<length (members_of cluster_id services).
               new_calls s s' =
                 ListServices # map (\<lambda>x. DisableNfs (location x) cluster_id None)
                                  (take k (members_of cluster_id services)) @
                   [DisableNfs (location (members_of cluster_id services ! k)) cluster_id (Some ex)] \<and>
               logs s' = logs s @
                 [disable_error_log cluster_id (location (members_of cluster_id services ! k)) ex]))"
proof -
  from assms have "disable_each env cluster_id (members_of cluster_id services)
      (add_call ListServices s) = (r, s')"
    by (simp add: remove_nfs_cluster_def)
  from disable_each_trace [OF this] show ?thesis
    by (fastforce simp: new_calls_def)
qed

text \<open>
The amended C1 on the cluster of the counterexample.
\<close>

theorem teardown_stops_at_first_failure_witness:
  "list_services sim_env (world scenario4_state) = Inr three_of_a \<and>
   remove_nfs_cluster sim_env ''a'' scenario4_state =
     (Inl (Failure ''disable failed''), snd (remove_nfs_cluster sim_env ''a'' scenario4_state)) \<and>
   (\<exists>k<length (members_of ''a'' three_of_a).
      new_calls scenario4_state (snd (remove_nfs_cluster sim_env ''a'' scenario4_state)) =
        ListServices # map (\<lambda>x. DisableNfs (location x) ''a'' None)
                         (take k (members_of ''a'' three_of_a)) @
          [DisableNfs (location (members_of ''a'' three_of_a ! k)) ''a''
             (Some (Failure ''disable failed''))] \<and>
      logs (snd (remove_nfs_cluster sim_env ''a'' scenario4_state)) =
        logs scenario4_state @
          [disable_error_log ''a'' (location (members_of ''a'' three_of_a ! k))
             (Failure ''disable failed'')])"
proof -
  have h1: "list_services sim_env (world scenario4_state) = Inr three_of_a"
    by (simp add: sim_env_def scenario4_state_def sim_state_def quiet_def)
  have "fst (remove_nfs_cluster sim_env ''a'' scenario4_state) = Inl (Failure ''disable failed'')"
    by (simp add: run_defs)
  then have h2: "remove_nfs_cluster sim_env ''a'' scenario4_state =
     (Inl (Failure ''disable failed''), snd (remove_nfs_cluster sim_env ''a'' scenario4_state))"
    by (rule pair_of_fst)
  from teardown_stops_at_first_failure [OF h1 h2] h1 h2 show ?thesis by blast
qed

subsection \<open>C2: credential revocation after a failed teardown\<close>

text \<open>
  C2 says that the key of the departing consumer is still removed when a Disable call
  fails during teardown. In the code the exception of \<^verbatim>\<open>_remove_nfs_cluster\<close> leaves
  \<^verbatim>\<open>_on_ceph_nfs_departed\<close>, which has no \<^verbatim>\<open>try\<close>, before \<^verbatim>\<open>remove_named_key\<close> is
  reached. The leader handles the departure of \<open>a\<close>; Disable fails on \<open>h3\<close>; the handler
  raises, no \<^verbatim>\<open>RemoveNamedKey\<close> call is made and the key \<open>client.a\<close> is still there.
\<close>

theorem departed_revocation_counterexample:
  "leader depart_state \<and>
   fst (on_ceph_nfs_departed sim_env rel_a depart_state) = Inl (Failure ''disable failed'') \<and>
   calls (snd (on_ceph_nfs_departed sim_env rel_a depart_state)) =
     [ListServices, DisableNfs ''h1'' ''a'' None, DisableNfs ''h2'' ''a'' None,
      DisableNfs ''h3'' ''a'' (Some (Failure ''disable failed''))] \<and>
   keyring (world (snd (on_ceph_nfs_departed sim_env rel_a depart_state))) = [''client.a'']"
  by (simp add: run_defs)

text \<open>
  C2, amended: for a depart signal handled with leadership, the key of the departing
  consumer is removed exactly when teardown returns without an exception, and then right
  after the calls of teardown. When teardown raises (a Disable call or the inventory
  query failed), the handler raises the same exception in the state teardown left, and
  no key is removed.
\<close>

theorem departed_revokes_only_after_teardown:
  assumes "leader s"
    and "remove_nfs_cluster env (app_name rel)
           (add_log INFO ''Processing ceph-nfs departed'' [] s) = (r1, s1)"
    and "on_ceph_nfs_departed env rel s = (r, s')"
  shows "(\<forall>ex. r1 = Inl ex \<longrightarrow>
            r = Inl ex \<and> s' = s1 \<and> (\<forall>c. RemoveNamedKey c \<notin> set (new_calls s s'))) \<and>
         (r1 = Inr () \<longrightarrow>
            (\<exists>tr. new_calls s s' =
               new_calls s s1 @ RemoveNamedKey (''client.'' @ app_name rel) # tr))"
proof -
  let ?s0 = "add_log INFO ''Processing ceph-nfs departed'' [] s"
  from remove_nfs_cluster_facts [OF assms(2)] obtain tr1 where
    tr1: "calls s1 = calls s @ tr1" "list_all is_teardown_call tr1" by auto
  then have nc1: "new_calls s s1 = tr1" by (simp add: new_calls_def)
  have bad: "r = Inl ex \<and> s' = s1 \<and> (\<forall>c. RemoveNamedKey c \<notin> set (new_calls s s'))"
    if "r1 = Inl ex" for ex
  proof -
    from that assms have "r = Inl ex" "s' = s1"
      by (simp_all add: on_ceph_nfs_departed_def)
    with nc1 teardown_call_not_revoke [OF tr1(2)] show ?thesis by simp
  qed
  have good: "\<exists>tr. new_calls s s' =
               new_calls s s1 @ RemoveNamedKey (''client.'' @ app_name rel) # tr"
    if "r1 = Inr ()"
  proof -
    let ?c = "''client.'' @ app_name rel"
    let ?s2 = "add_call (RemoveNamedKey ?c) (s1\<lparr>world := remove_named_key env ?c (world s1)\<rparr>)"
    from that assms have "service_each env (filter (\<lambda>x. x \<noteq> rel) (relations ?s2)) ?s2 = (r, s')"
      by (simp add: on_ceph_nfs_departed_def Let_def)
    from service_each_calls_prefix [OF this] obtain tr where "calls s' = calls ?s2 @ tr" ..
    with tr1(1) have "calls s' = calls s @ (tr1 @ RemoveNamedKey ?c # tr)" by simp
    then have "new_calls s s' = tr1 @ RemoveNamedKey ?c # tr" by (rule new_calls_append)
    with nc1 show ?thesis by blast
  qed
  from bad good show ?thesis by blast
qed

text \<open>
  The amended C2 on a teardown that fails (Disable fails on \<open>h3\<close>) and on one that
  succeeds.
\<close>

theorem departed_revokes_only_after_teardown_witness:
  "leader depart_state \<and>
   (\<exists>ex s1. remove_nfs_cluster sim_env (app_name rel_a)
               (add_log INFO ''Processing ceph-nfs departed'' [] depart_state) = (Inl ex, s1) \<and>
      on_ceph_nfs_departed sim_env rel_a depart_state = (Inl ex, s1) \<and>
      (\<forall>c. RemoveNamedKey c \<notin> set (new_calls depart_state s1))) \<and>
   leader p5_state \<and>
   (\<exists>s1 s' tr. remove_nfs_cluster sim_env (app_name rel_a)
               (add_log INFO ''Processing ceph-nfs departed'' [] p5_state) = (Inr (), s1) \<and>
      on_ceph_nfs_departed sim_env rel_a p5_state = (Inr (), s') \<and>
      new_calls p5_state s' =
        new_calls p5_state s1 @ RemoveNamedKey (''client.'' @ app_name rel_a) # tr)"
proof -
  let ?t1 = "remove_nfs_cluster sim_env (app_name rel_a)
               (add_log INFO ''Processing ceph-nfs departed'' [] depart_state)"
  let ?d1 = "on_ceph_nfs_departed sim_env rel_a depart_state"
  let ?t2 = "remove_nfs_cluster sim_env (app_name rel_a)
               (add_log INFO ''Processing ceph-nfs departed'' [] p5_state)"
  let ?d2 = "on_ceph_nfs_departed sim_env rel_a p5_state"
  have l1: "leader depart_state" and l2: "leader p5_state"
    by (simp_all add: depart_state_def p5_state_def sim_state_def)
  have "fst ?t1 = Inl (Failure ''disable failed'')" by (simp add: run_defs)
  then have t1: "?t1 = (Inl (Failure ''disable failed''), snd ?t1)" by (rule pair_of_fst)
  have d1: "?d1 = (fst ?d1, snd ?d1)" by simp
  have "fst ?t2 = Inr ()" by (simp add: run_defs)
  then have t2: "?t2 = (Inr (), snd ?t2)" by (rule pair_of_fst)
  have "fst ?d2 = Inr ()" by (simp add: run_defs)
  then have d2: "?d2 = (Inr (), snd ?d2)" by (rule pair_of_fst)
  from departed_revokes_only_after_teardown [OF l1 t1 d1]
  have a: "fst ?d1 = Inl (Failure ''disable failed'') \<and> snd ?d1 = snd ?t1 \<and>
           (\<forall>c. RemoveNamedKey c \<notin> set (new_calls depart_state (snd ?d1)))" by blast
  from departed_revokes_only_after_teardown [OF l2 t2 d2]
  have b: "\<exists>tr. new_calls p5_state (snd ?d2) =
               new_calls p5_state (snd ?t2) @ RemoveNamedKey (''client.'' @ app_name rel_a) # tr"
    by blast
  from a t1 d1 have "\<exists>ex s1. ?t1 = (Inl ex, s1) \<and> ?d1 = (Inl ex, s1) \<and>
      (\<forall>c. RemoveNamedKey c \<notin> set (new_calls depart_state s1))"
    by (metis prod.collapse)
  moreover from b t2 d2 have "\<exists>s1 s' tr. ?t2 = (Inr (), s1) \<and> ?d2 = (Inr (), s') \<and>
      new_calls p5_state s' =
        new_calls p5_state s1 @ RemoveNamedKey (''client.'' @ app_name rel_a) # tr"
    by blast
  ultimately show ?thesis using l1 l2 by blast
qed

subsection \<open>C3: where the candidates come from\<close>

text \<open>
  C3 says that the candidate set is the host universe of the peer topology without the
  hosts that run nfs, so that a host that never ran the service is a candidate. In the
  code the universe is the set of locations in the service inventory. Host \<open>h2\<close> is
  known to the peer relation with an address and has never run nfs, but no service of
  the inventory is located on it: it is a candidate of the specification and not of the
  code, and reconciliation enables nfs on \<open>h1\<close> only.
\<close>

theorem candidate_universe_counterexample:
  "set (candidates_of sim_env one_mon) \<noteq> set (spec_candidates two_peers one_mon) \<and>
   ''h2'' \<in> set (spec_candidates two_peers one_mon) \<and>
   ''h2'' \<notin> set (candidates_of sim_env one_mon) \<and>
   resolves roster_state ''h2'' ''10.0.0.2'' \<and>
   list_services sim_env (world roster_state) = Inr one_mon \<and>
   calls (snd (ensure_nfs_cluster sim_env ''a'' roster_state)) =
     [ListServices, EnableNfs ''h1'' ''a'' ''10.0.0.1'' None]"
  by (simp add: run_defs spec_candidates_def peer_hosts_def List.map_filter_def resolves_def)

text \<open>
  C3, amended: for every reconciliation attempt that gets as far as the candidate
  search, the candidate set is the set of locations of all services in the inventory,
  of any kind, without the locations of the nfs services of any group; Enable is called
  for the target group only and on candidates only. So a host that runs some other
  service and no nfs is a candidate, and a host on which the inventory shows no service
  is not, whatever the peer topology knows about it. (The hypothesis on \<open>set_iter\<close>
  says that iterating over the Python set visits the elements of the set.)
\<close>

theorem candidates_from_inventory:
  assumes "list_services env (world s) = Inr services"
    and "set (set_iter env (map location services)) = set (map location services)"
    and "ensure_nfs_cluster env cluster_id s = (r, s')"
  shows "set (candidates_of env services) =
           location ` set services - location ` {x \<in> set services. service x = ''nfs''} \<and>
         (\<forall>h g a out. EnableNfs h g a out \<in> set (new_calls s s') \<longrightarrow>
            g = cluster_id \<and> h \<in> set (candidates_of env services))"
proof -
  have cand: "set (candidates_of env services) =
           location ` set services - location ` {x \<in> set services. service x = ''nfs''}"
    using assms(2) by (auto simp: candidates_of_def Let_def)
  have "g = cluster_id \<and> h \<in> set (candidates_of env services)"
    if mem: "EnableNfs h g a out \<in> set (new_calls s s')" for h g a out
  proof (cases "3 \<le> length (members_of cluster_id services)")
    case True
    from ensure_projects [OF ensure_counted_full [OF assms(1) True]] assms(3)
    have "new_calls s s' = [ListServices]" by (auto simp: new_calls_def)
    with mem show ?thesis by simp
  next
    case False
    then have lt: "length (members_of cluster_id services) < 3" by simp
    from ensure_counted_outcome [OF assms(1) lt] obtain n s1 s'' where
        e: "enroll env cluster_id (candidates_of env services)
              (length (members_of cluster_id services)) (add_call ListServices s) = (n, s1)"
        and r: "ensure_nfs_cluster_counted env cluster_id s = (Inr (n \<noteq> 0, n), s'')"
        and c: "calls s'' = calls s1" by blast
    from ensure_projects [OF r] assms(3) have "s'' = s'" by simp
    with c have c': "calls s' = calls s1" by simp
    from enroll_trace [OF e lt] obtain tr where
      tr: "calls s1 = calls (add_call ListServices s) @ tr" "list_all (is_enable cluster_id) tr"
      by blast
    from enroll_hosts [OF e] obtain tr' where
      tr': "calls s1 = calls (add_call ListServices s) @ tr'"
        "\<forall>h g' a out. EnableNfs h g' a out \<in> set tr' \<longrightarrow> h \<in> set (candidates_of env services)"
      by blast
    from tr(1) tr'(1) have "tr' = tr" by simp
    from tr(1) c' have "new_calls s s' = ListServices # tr" by (simp add: new_calls_def)
    with mem have "EnableNfs h g a out \<in> set tr" by simp
    with tr(2) tr'(2) \<open>tr' = tr\<close> is_enable_group show ?thesis by blast
  qed
  with cand show ?thesis by blast
qed

text \<open>
The amended C3 on the cluster of the counterexample.
\<close>

theorem candidates_from_inventory_witness:
  "list_services sim_env (world roster_state) = Inr one_mon \<and>
   set (set_iter sim_env (map location one_mon)) = set (map location one_mon) \<and>
   set (candidates_of sim_env one_mon) =
     location ` set one_mon - location ` {x \<in> set one_mon. service x = ''nfs''} \<and>
   EnableNfs ''h1'' ''a'' ''10.0.0.1'' None
     \<in> set (new_calls roster_state (snd (ensure_nfs_cluster sim_env ''a'' roster_state))) \<and>
   ''h1'' \<in> set (candidates_of sim_env one_mon)"
proof -
  let ?e = "ensure_nfs_cluster sim_env ''a'' roster_state"
  have h1: "list_services sim_env (world roster_state) = Inr one_mon"
    by (simp add: sim_env_def roster_state_def sim_state_def quiet_def)
  have h2: "set (set_iter sim_env (map location one_mon)) = set (map location one_mon)"
    by (simp add: sim_env_def)
  have h3: "?e = (fst ?e, snd ?e)" by simp
  have "calls (snd ?e) = [ListServices, EnableNfs ''h1'' ''a'' ''10.0.0.1'' None]"
    by (simp add: run_defs)
  moreover have "calls roster_state = []" by (simp add: roster_state_def sim_state_def)
  ultimately have m: "EnableNfs ''h1'' ''a'' ''10.0.0.1'' None \<in> set (new_calls roster_state (snd ?e))"
    by (simp add: new_calls_def)
  from candidates_from_inventory [OF h1 h2 h3] h1 h2 m show ?thesis by blast
qed

subsection \<open>C4: enrollment is best-effort per host\<close>

text \<open>
  C4: when the target group has fewer than 3 members, reconciliation runs the
  enrollment loop, and an Enable that raises does not end it. The final count is the
  pre-existing count plus the number of Enable calls that returned, so a failing host
  adds nothing. The loop ends early only through the cap: when the final count is 3
  the last call is an Enable that returned; otherwise every candidate with a
  resolvable address was attempted, whichever calls raised before it.
\<close>

theorem reconcile_best_effort:
  assumes "list_services env (world s) = Inr services"
    and "length (members_of cluster_id services) < 3"
  shows "\<exists>ok n s' tr. ensure_nfs_cluster_counted env cluster_id s = (Inr (ok, n), s') \<and>
           new_calls s s' = ListServices # tr \<and>
           n = length (members_of cluster_id services) + length (filter enable_ok tr) \<and>
           (n = 3 \<longrightarrow> tr \<noteq> [] \<and> enable_ok (last tr)) \<and>
           (n \<noteq> 3 \<longrightarrow>
              (\<forall>c \<in> set (candidates_of env services). \<forall>a. resolves s c a \<longrightarrow>
                 (\<exists>out. EnableNfs c cluster_id a out \<in> set tr)))"
proof -
  let ?s0 = "add_call ListServices s"
  from ensure_counted_outcome [OF assms] obtain n s1 s' where
    e: "enroll env cluster_id (candidates_of env services)
          (length (members_of cluster_id services)) ?s0 = (n, s1)"
    and r: "ensure_nfs_cluster_counted env cluster_id s = (Inr (n \<noteq> 0, n), s')"
    and c: "calls s' = calls s1" by blast
  from enroll_trace [OF e assms(2)] obtain tr where
    tr: "calls s1 = calls ?s0 @ tr"
        "n = length (members_of cluster_id services) + length (filter enable_ok tr)"
        "n \<le> 3" "n = 3 \<longrightarrow> tr \<noteq> [] \<and> enable_ok (last tr)" by blast
  from tr(1) c have nc: "new_calls s s' = ListServices # tr" by (simp add: new_calls_def)
  have "\<exists>out. EnableNfs c cluster_id a out \<in> set tr"
    if "n \<noteq> 3" "c \<in> set (candidates_of env services)" "resolves s c a" for c a
  proof -
    from that(1) tr(3) have lt: "n < 3" by simp
    have "resolves ?s0 c a" using that(3) resolves_peers [of ?s0 s] by simp
    from enroll_attempts_all [OF e lt that(2) this] obtain tr' out where
      "calls s1 = calls ?s0 @ tr'" "EnableNfs c cluster_id a out \<in> set tr'" by blast
    with tr(1) show ?thesis by auto
  qed
  with r nc tr(2,4) show ?thesis by blast
qed

text \<open>
  C4 on three free hosts where Enable fails on \<open>h2\<close>: \<open>h3\<close> is still attempted and the
  count is 2.
\<close>

theorem reconcile_best_effort_witness:
  "fst (ensure_nfs_cluster_counted sim_env ''a'' flaky_state) = Inr (True, 2) \<and>
   calls (snd (ensure_nfs_cluster_counted sim_env ''a'' flaky_state)) =
     [ListServices, EnableNfs ''h1'' ''a'' ''10.0.0.1'' None,
      EnableNfs ''h2'' ''a'' ''10.0.0.2'' (Some (Failure ''enable failed'')),
      EnableNfs ''h3'' ''a'' ''10.0.0.3'' None] \<and>
   list_services sim_env (world flaky_state) = Inr (butlast mons) \<and>
   length (members_of ''a'' (butlast mons)) < 3 \<and>
   (\<exists>ok n s' tr. ensure_nfs_cluster_counted sim_env ''a'' flaky_state = (Inr (ok, n), s') \<and>
      new_calls flaky_state s' = ListServices # tr \<and>
      n = length (members_of ''a'' (butlast mons)) + length (filter enable_ok tr) \<and>
      (n = 3 \<longrightarrow> tr \<noteq> [] \<and> enable_ok (last tr)) \<and>
      (n \<noteq> 3 \<longrightarrow>
         (\<forall>c \<in> set (candidates_of sim_env (butlast mons)). \<forall>a. resolves flaky_state c a \<longrightarrow>
            (\<exists>out. EnableNfs c ''a'' a out \<in> set tr))))"
proof -
  have h1: "list_services sim_env (world flaky_state) = Inr (butlast mons)"
    by (simp add: sim_env_def flaky_state_def sim_state_def quiet_def)
  have h2: "length (members_of ''a'' (butlast mons)) < 3"
    by (simp add: members_of_def mons_def other_on_def)
  have run: "fst (ensure_nfs_cluster_counted sim_env ''a'' flaky_state) = Inr (True, 2) \<and>
   calls (snd (ensure_nfs_cluster_counted sim_env ''a'' flaky_state)) =
     [ListServices, EnableNfs ''h1'' ''a'' ''10.0.0.1'' None,
      EnableNfs ''h2'' ''a'' ''10.0.0.2'' (Some (Failure ''enable failed'')),
      EnableNfs ''h3'' ''a'' ''10.0.0.3'' None]"
    by (simp add: run_defs)
  from reconcile_best_effort [OF h1 h2] h1 h2 run show ?thesis by blast
qed

subsection \<open>C5: a full group is left alone\<close>

text \<open>
  C5: when the inventory shows at least 3 members of the target group, reconciliation
  returns \<^verbatim>\<open>True\<close> after the inventory query alone: no actuator call, the cluster and
  the published data unchanged. Running it again from the resulting state gives the
  same outcome.
\<close>

theorem reconcile_full_group_is_noop:
  assumes "list_services env (world s) = Inr services"
    and "3 \<le> length (members_of cluster_id services)"
  shows "\<exists>s' s''. ensure_nfs_cluster env cluster_id s = (Inr True, s') \<and>
           new_calls s s' = [ListServices] \<and> world s' = world s \<and> rel_data s' = rel_data s \<and>
           ensure_nfs_cluster env cluster_id s' = (Inr True, s'') \<and>
           new_calls s' s'' = [ListServices] \<and> world s'' = world s \<and> rel_data s'' = rel_data s"
proof -
  let ?msg = "''NFS Cluster '%s' already exists, and there are >= 3 nodes in it.''"
  let ?s' = "add_log INFO ?msg [Str cluster_id] (add_call ListServices s)"
  let ?s'' = "add_log INFO ?msg [Str cluster_id] (add_call ListServices ?s')"
  have 1: "ensure_nfs_cluster env cluster_id s = (Inr True, ?s')"
    by (rule ensure_projects) (rule ensure_counted_full [OF assms])
  have "list_services env (world ?s') = Inr services" using assms(1) by simp
  then have 2: "ensure_nfs_cluster env cluster_id ?s' = (Inr True, ?s'')"
    by (rule ensure_projects [OF ensure_counted_full [OF _ assms(2)]])
  have "new_calls s ?s' = [ListServices]" "new_calls ?s' ?s'' = [ListServices]"
    by (simp_all add: new_calls_def)
  with 1 2 show ?thesis by simp
qed

text \<open>
C5 on a group with three members.
\<close>

theorem reconcile_full_group_is_noop_witness:
  "list_services sim_env (world full_state) = Inr three_of_a \<and>
   3 \<le> length (members_of ''a'' three_of_a) \<and>
   (\<exists>s' s''. ensure_nfs_cluster sim_env ''a'' full_state = (Inr True, s') \<and>
      new_calls full_state s' = [ListServices] \<and> world s' = world full_state \<and>
      rel_data s' = rel_data full_state \<and>
      ensure_nfs_cluster sim_env ''a'' s' = (Inr True, s'') \<and>
      new_calls s' s'' = [ListServices] \<and> world s'' = world full_state \<and>
      rel_data s'' = rel_data full_state)"
proof -
  have h1: "list_services sim_env (world full_state) = Inr three_of_a"
    by (simp add: sim_env_def full_state_def sim_state_def quiet_def)
  have h2: "3 \<le> length (members_of ''a'' three_of_a)"
    by (simp add: members_of_def three_of_a_def mons_def other_on_def nfs_on_def)
  from reconcile_full_group_is_noop [OF h1 h2] h1 h2 show ?thesis by blast
qed

subsection \<open>C6: the capacity bound\<close>

text \<open>
  C6: when the target group starts with at most 3 members, the count after
  reconciliation is the pre-existing count plus the number of Enable calls that
  returned, that number is at most 3 minus the pre-existing count, the count is at
  most 3, and when it is 3 and the loop made a call, the last call is a successful
  Enable: nothing is attempted after the count has reached 3.
\<close>

theorem reconcile_capacity_bound:
  assumes "list_services env (world s) = Inr services"
    and "length (members_of cluster_id services) \<le> 3"
  shows "\<exists>ok n s' tr. ensure_nfs_cluster_counted env cluster_id s = (Inr (ok, n), s') \<and>
           new_calls s s' = ListServices # tr \<and>
           n = length (members_of cluster_id services) + length (filter enable_ok tr) \<and>
           length (filter enable_ok tr) \<le> 3 - length (members_of cluster_id services) \<and>
           n \<le> 3 \<and>
           (n = 3 \<and> tr \<noteq> [] \<longrightarrow> enable_ok (last tr))"
proof (cases "length (members_of cluster_id services) = 3")
  case True
  then have "3 \<le> length (members_of cluster_id services)" by simp
  from ensure_counted_full [OF assms(1) this] True obtain s' where
    r: "ensure_nfs_cluster_counted env cluster_id s = (Inr (True, 3), s')"
    and c: "calls s' = calls s @ [ListServices]" by simp
  from c have nc: "new_calls s s' = ListServices # []" by (simp add: new_calls_def)
  show ?thesis
    by (rule exI [of _ True], rule exI [of _ 3], rule exI [of _ s'], rule exI [of _ "[]"])
       (simp add: r nc True)
next
  case False
  with assms(2) have lt: "length (members_of cluster_id services) < 3" by simp
  from ensure_counted_outcome [OF assms(1) lt] obtain n s1 s' where
    e: "enroll env cluster_id (candidates_of env services)
          (length (members_of cluster_id services)) (add_call ListServices s) = (n, s1)"
    and r: "ensure_nfs_cluster_counted env cluster_id s = (Inr (n \<noteq> 0, n), s')"
    and c: "calls s' = calls s1" by blast
  from enroll_trace [OF e lt] obtain tr where
    tr: "calls s1 = calls (add_call ListServices s) @ tr"
        "n = length (members_of cluster_id services) + length (filter enable_ok tr)"
        "n \<le> 3" "n = 3 \<longrightarrow> tr \<noteq> [] \<and> enable_ok (last tr)" by blast
  from tr(1) c have "new_calls s s' = ListServices # tr" by (simp add: new_calls_def)
  moreover from tr(2,3) have "length (filter enable_ok tr) \<le> 3 - length (members_of cluster_id services)"
    by simp
  ultimately show ?thesis using r tr(2,3,4) by blast
qed

text \<open>
  C6 on a group with one member and four free hosts, with Enable failing on \<open>h3\<close>:
  \<open>h2\<close> and \<open>h4\<close> are enrolled and \<open>h5\<close> is never attempted.
\<close>

theorem reconcile_capacity_bound_witness:
  "fst (ensure_nfs_cluster_counted sim_env ''a'' growing_state) = Inr (True, 3) \<and>
   calls (snd (ensure_nfs_cluster_counted sim_env ''a'' growing_state)) =
     [ListServices, EnableNfs ''h2'' ''a'' ''10.0.0.2'' None,
      EnableNfs ''h3'' ''a'' ''10.0.0.3'' (Some (Failure ''enable failed'')),
      EnableNfs ''h4'' ''a'' ''10.0.0.4'' None] \<and>
   list_services sim_env (world growing_state) = Inr five_hosts \<and>
   length (members_of ''a'' five_hosts) \<le> 3 \<and>
   (\<exists>ok n s' tr. ensure_nfs_cluster_counted sim_env ''a'' growing_state = (Inr (ok, n), s') \<and>
      new_calls growing_state s' = ListServices # tr \<and>
      n = length (members_of ''a'' five_hosts) + length (filter enable_ok tr) \<and>
      length (filter enable_ok tr) \<le> 3 - length (members_of ''a'' five_hosts) \<and>
      n \<le> 3 \<and> (n = 3 \<and> tr \<noteq> [] \<longrightarrow> enable_ok (last tr)))"
proof -
  have h1: "list_services sim_env (world growing_state) = Inr five_hosts"
    by (simp add: sim_env_def growing_state_def sim_state_def quiet_def)
  have h2: "length (members_of ''a'' five_hosts) \<le> 3"
    by (simp add: members_of_def five_hosts_def mons_def other_on_def nfs_on_def)
  have run: "fst (ensure_nfs_cluster_counted sim_env ''a'' growing_state) = Inr (True, 3) \<and>
   calls (snd (ensure_nfs_cluster_counted sim_env ''a'' growing_state)) =
     [ListServices, EnableNfs ''h2'' ''a'' ''10.0.0.2'' None,
      EnableNfs ''h3'' ''a'' ''10.0.0.3'' (Some (Failure ''enable failed'')),
      EnableNfs ''h4'' ''a'' ''10.0.0.4'' None]"
    by (simp add: run_defs)
  from reconcile_capacity_bound [OF h1 h2] h1 h2 run show ?thesis by blast
qed

subsection \<open>C7: the published data is cleared, written in full, or left as it was\<close>

text \<open>
  C7 says that the databag is cleared when reconciliation ends with no member and that
  the full record is written when at least one member exists. The second half fails
  when a call between reconciliation and the write raises: lines 97 to 114 have no
  \<^verbatim>\<open>try\<close>. Group \<open>a\<close> has three members and the databag holds an old \<open>fsid\<close> and a
  key \<open>extra\<close>; the volume is created, then fetching the named key raises:
  \<^verbatim>\<open>_service_relation\<close> raises, and the databag is as before, neither written nor
  cleared.
\<close>

theorem publish_record_counterexample:
  "fst (ensure_nfs_cluster_counted sim_env (app_name rel_a) keyless_state) = Inr (True, 3) \<and>
   fst (service_relation sim_env rel_a keyless_state) = Inl (Failure ''no key'') \<and>
   calls (snd (service_relation sim_env rel_a keyless_state)) =
     [ListServices, ListFsVolumes, CreateFsVolume ''a-vol'', GetNamedKey ''client.a'' caps] \<and>
   map (rel_data keyless_state (rel_id rel_a)) record_keys =
     [Some ''old'', None, None, None, None, None, Some ''kept''] \<and>
   map (rel_data (snd (service_relation sim_env rel_a keyless_state)) (rel_id rel_a)) record_keys =
     [Some ''old'', None, None, None, None, None, Some ''kept'']"
  by (simp add: run_defs)

text \<open>
  C7, amended: when a reconciliation attempt ends with a count of 0,
  \<^verbatim>\<open>_service_relation\<close> returns \<^verbatim>\<open>False\<close> in the state reconciliation left, with the
  databag of the relation emptied: no volume or key call is made and no field is
  written. When it ends with a count above 0 and the volume, key, monitor-address and
  fsid calls all return, it returns \<^verbatim>\<open>True\<close> and the databag of the relation is the
  old one updated with the six fields: \<open>fsid\<close> is what \<^verbatim>\<open>get_fsid\<close> returned,
  \<open>mon-hosts\<close> is \<^verbatim>\<open>json.dumps\<close> of what \<^verbatim>\<open>get_mon_addresses\<close> returned, \<open>keyring\<close>
  is what \<^verbatim>\<open>get_named_key\<close> returned, \<open>volume\<close> is the cluster id followed by
  \<open>-vol\<close>, \<open>client\<close> is \<open>client.\<close> followed by the application name, \<open>cluster-id\<close>
  is the cluster id (a field whose value is the empty string is removed, as the databag
  does). When one of those calls raises, \<^verbatim>\<open>_service_relation\<close> raises the same
  exception and every databag is as before. The databags of the other relations never
  change.
\<close>

theorem publish_cleared_written_or_untouched:
  assumes "ensure_nfs_cluster_counted env (app_name rel) s = (Inr (ok, n), s1)"
    and "service_relation env rel s = (r, s')"
  shows "(n = 0 \<longrightarrow>
            r = Inr False \<and> s' = s1\<lparr>rel_data := (rel_data s)(rel_id rel := Map.empty)\<rparr>) \<and>
         (0 < n \<longrightarrow>
            (case ensure_fs_volume env (app_name rel @ ''-vol'') s1 of
               (Inl ex, s2) \<Rightarrow> r = Inl ex \<and> rel_data s' = rel_data s
             | (Inr u, s2) \<Rightarrow>
                 (case get_named_key env (''client.'' @ app_name rel) caps (world s2) of
                    (Inl ex, w3) \<Rightarrow> r = Inl ex \<and> rel_data s' = rel_data s
                  | (Inr client_key, w3) \<Rightarrow>
                      (case get_mon_addresses env w3 of
                         Inl ex \<Rightarrow> r = Inl ex \<and> rel_data s' = rel_data s
                       | Inr addrs \<Rightarrow>
                           (case get_fsid env w3 of
                              Inl ex \<Rightarrow> r = Inl ex \<and> rel_data s' = rel_data s
                            | Inr fsid \<Rightarrow>
                                r = Inr True \<and> world s' = w3 \<and>
                                rel_data s' = (rel_data s)(rel_id rel :=
                                  databag_update (rel_data s (rel_id rel))
                                    [(''fsid'', fsid),
                                     (''mon-hosts'', json_dumps env addrs),
                                     (''keyring'', client_key),
                                     (''volume'', app_name rel @ ''-vol''),
                                     (''client'', ''client.'' @ app_name rel),
                                     (''cluster-id'', app_name rel)]))))))"
proof -
  from ensure_counted_frame [OF assms(1)] have rd: "rel_data s1 = rel_data s" and ok: "ok = (n \<noteq> 0)"
    by simp_all
  from ensure_projects [OF assms(1)]
  have e: "ensure_nfs_cluster env (app_name rel) s = (Inr ok, s1)" .
  have zero: "r = Inr False \<and> s' = s1\<lparr>rel_data := (rel_data s)(rel_id rel := Map.empty)\<rparr>"
    if "n = 0"
    using that e ok rd assms(2) by (simp add: service_relation_def)
  have pos: "(case ensure_fs_volume env (app_name rel @ ''-vol'') s1 of
               (Inl ex, s2) \<Rightarrow> r = Inl ex \<and> rel_data s' = rel_data s
             | (Inr u, s2) \<Rightarrow>
                 (case get_named_key env (''client.'' @ app_name rel) caps (world s2) of
                    (Inl ex, w3) \<Rightarrow> r = Inl ex \<and> rel_data s' = rel_data s
                  | (Inr client_key, w3) \<Rightarrow>
                      (case get_mon_addresses env w3 of
                         Inl ex \<Rightarrow> r = Inl ex \<and> rel_data s' = rel_data s
                       | Inr addrs \<Rightarrow>
                           (case get_fsid env w3 of
                              Inl ex \<Rightarrow> r = Inl ex \<and> rel_data s' = rel_data s
                            | Inr fsid \<Rightarrow>
                                r = Inr True \<and> world s' = w3 \<and>
                                rel_data s' = (rel_data s)(rel_id rel :=
                                  databag_update (rel_data s (rel_id rel))
                                    [(''fsid'', fsid),
                                     (''mon-hosts'', json_dumps env addrs),
                                     (''keyring'', client_key),
                                     (''volume'', app_name rel @ ''-vol''),
                                     (''client'', ''client.'' @ app_name rel),
                                     (''cluster-id'', app_name rel)])))))"
    if "0 < n"
  proof -
    obtain r2 s2 where v: "ensure_fs_volume env (app_name rel @ ''-vol'') s1 = (r2, s2)"
      by (cases "ensure_fs_volume env (app_name rel @ ''-vol'') s1")
    from ensure_fs_volume_frame [OF v] rd have rd2: "rel_data s2 = rel_data s" by simp
    from that ok have "ok" by simp
    with e assms(2) v rd2 show ?thesis
      by (auto simp add: service_relation_def Let_def simp del: databag_update.simps
            split: sum.splits prod.splits)
  qed
  from zero pos show ?thesis by blast
qed

text \<open>
  The amended C7 on databags that hold old data: a cluster without hosts (the databag
  is emptied), a full group (the six fields are written over the old \<open>fsid\<close>, and
  \<open>extra\<close> is kept), and the full group where fetching the key raises (untouched).
\<close>

theorem publish_cleared_written_or_untouched_witness:
  "fst (service_relation sim_env rel_a stale_empty_state) = Inr False \<and>
   rel_data (snd (service_relation sim_env rel_a stale_empty_state)) (rel_id rel_a) = Map.empty \<and>
   fst (service_relation sim_env rel_a stale_full_state) = Inr True \<and>
   map (rel_data (snd (service_relation sim_env rel_a stale_full_state)) (rel_id rel_a))
       record_keys =
     [Some ''f5id'', Some ''10.0.0.1'', Some ''key-client.a'', Some ''a-vol'', Some ''client.a'',
      Some ''a'', Some ''kept''] \<and>
   fst (service_relation sim_env rel_a keyless_state) = Inl (Failure ''no key'') \<and>
   rel_data (snd (service_relation sim_env rel_a keyless_state)) = rel_data keyless_state"
proof -
  let ?e0 = "ensure_nfs_cluster_counted sim_env (app_name rel_a) stale_empty_state"
  let ?e3 = "ensure_nfs_cluster_counted sim_env (app_name rel_a) stale_full_state"
  let ?ek = "ensure_nfs_cluster_counted sim_env (app_name rel_a) keyless_state"
  let ?p0 = "service_relation sim_env rel_a stale_empty_state"
  let ?p3 = "service_relation sim_env rel_a stale_full_state"
  let ?pk = "service_relation sim_env rel_a keyless_state"
  have "fst ?e0 = Inr (False, 0)" by (simp add: run_defs)
  then have h0: "?e0 = (Inr (False, 0), snd ?e0)" by (rule pair_of_fst)
  have "fst ?e3 = Inr (True, 3)" by (simp add: run_defs)
  then have h3: "?e3 = (Inr (True, 3), snd ?e3)" by (rule pair_of_fst)
  have "fst ?ek = Inr (True, 3)" by (simp add: run_defs)
  then have hk: "?ek = (Inr (True, 3), snd ?ek)" by (rule pair_of_fst)
  have p0: "?p0 = (fst ?p0, snd ?p0)" and p3: "?p3 = (fst ?p3, snd ?p3)"
    and pk: "?pk = (fst ?pk, snd ?pk)" by simp_all
  from publish_cleared_written_or_untouched [OF h0 p0]
  have a: "fst ?p0 = Inr False \<and> rel_data (snd ?p0) (rel_id rel_a) = Map.empty" by simp
  from publish_cleared_written_or_untouched [OF h3 p3]
  have b: "fst ?p3 = Inr True \<and>
     map (rel_data (snd ?p3) (rel_id rel_a)) record_keys =
       [Some ''f5id'', Some ''10.0.0.1'', Some ''key-client.a'', Some ''a-vol'', Some ''client.a'',
        Some ''a'', Some ''kept'']"
    by (simp add: run_defs)
  from publish_cleared_written_or_untouched [OF hk pk]
  have c: "fst ?pk = Inl (Failure ''no key'') \<and> rel_data (snd ?pk) = rel_data keyless_state"
    by (simp add: run_defs)
  from a b c show ?thesis by blast
qed

subsection \<open>C8: rebalance on departure\<close>




subsection \<open>C9: leadership gating\<close>

text \<open>
  C9: without leadership the connect handler (and the reconcile handler, which calls
  it) and the depart handler return at once and leave the state as it is: no inventory
  query, no actuator call, no deferral, no change of the published data.
\<close>

theorem leadership_gates_handlers:
  assumes "\<not> leader s"
  shows "on_ceph_nfs_connected env rel s = (Inr (), s) \<and>
         on_ceph_nfs_reconcile env rel s = (Inr (), s) \<and>
         on_ceph_nfs_departed env rel s = (Inr (), s)"
  using assms
  by (simp add: on_ceph_nfs_connected_def on_ceph_nfs_reconcile_def on_ceph_nfs_departed_def)

text \<open>
C9 on a unit that is not the leader.
\<close>

theorem leadership_gates_handlers_witness:
  "\<not> leader follower_state \<and>
   on_ceph_nfs_connected sim_env rel_b follower_state = (Inr (), follower_state) \<and>
   on_ceph_nfs_reconcile sim_env rel_b follower_state = (Inr (), follower_state) \<and>
   on_ceph_nfs_departed sim_env rel_a follower_state = (Inr (), follower_state)"
proof -
  have h: "\<not> leader follower_state" by (simp add: follower_state_def sim_state_def)
  from leadership_gates_handlers [OF h, of sim_env rel_b]
       leadership_gates_handlers [OF h, of sim_env rel_a] h
  show ?thesis by simp
qed

subsection \<open>C10: reconciliation never removes members\<close>

text \<open>
  C10: whatever the inventory, the calls of \<^verbatim>\<open>_ensure_nfs_cluster\<close> are the inventory
  query followed by Enable calls for the target group only; it never calls Disable.
  When the target group has more than 3 members it returns \<^verbatim>\<open>True\<close> after the query
  and leaves the cluster as it is.
\<close>

theorem reconcile_never_disables:
  "\<exists>r s' tr. ensure_nfs_cluster env cluster_id s = (r, s') \<and>
     new_calls s s' = ListServices # tr \<and> list_all (is_enable cluster_id) tr \<and>
     (\<forall>h g out. DisableNfs h g out \<notin> set (new_calls s s')) \<and>
     (\<forall>services. list_services env (world s) = Inr services \<and>
          3 < length (members_of cluster_id services) \<longrightarrow>
        r = Inr True \<and> tr = [] \<and> world s' = world s)"
proof -
  from ensure_trace [of env cluster_id s] obtain r s' tr where
    1: "ensure_nfs_cluster env cluster_id s = (r, s')"
    and 2: "calls s' = calls s @ ListServices # tr"
    and 3: "list_all (is_enable cluster_id) tr"
    and 4: "\<forall>services. list_services env (world s) = Inr services \<and>
          3 < length (members_of cluster_id services) \<longrightarrow>
        r = Inr True \<and> tr = [] \<and> world s' = world s" by blast
  from 2 have nc: "new_calls s s' = ListServices # tr" by (simp add: new_calls_def)
  have "\<forall>h g out. DisableNfs h g out \<notin> set (new_calls s s')"
    using nc is_enable_not_disable [OF 3] by simp
  with 1 nc 3 4 show ?thesis by blast
qed

text \<open>
C10 on a group with four members.
\<close>

theorem reconcile_never_disables_witness:
  "list_services sim_env (world overfull_state) = Inr four_of_a \<and>
   3 < length (members_of ''a'' four_of_a) \<and>
   (\<exists>s'. ensure_nfs_cluster sim_env ''a'' overfull_state = (Inr True, s') \<and>
      new_calls overfull_state s' = [ListServices] \<and> world s' = world overfull_state)"
proof -
  have h1: "list_services sim_env (world overfull_state) = Inr four_of_a"
    by (simp add: sim_env_def overfull_state_def sim_state_def quiet_def)
  have h2: "3 < length (members_of ''a'' four_of_a)"
    by (simp add: members_of_def four_of_a_def three_of_a_def mons_def other_on_def nfs_on_def)
  from reconcile_never_disables [of sim_env "''a''" overfull_state] h1 h2
  show ?thesis by metis
qed

end
